theory Spec2Isabelle
  imports Complex_Main "HOL-Library.Sublist"
begin

text \<open>
  A model of the core of the document store and retriever \<open>brain\<close>: the
  recursive text chunker, the ingestion pipeline over a document store and a
  vector store, the episode splitting and retry loop of the graph client, and the
  fusion retriever.  Each definition follows the Python function of the same name;
  what the program gets from outside (files, normalizers, embeddings, the vector
  index, the graph backend, random identifiers) is a parameter.
\<close>

section \<open>Python values used by the program\<close>

text \<open>
  Exceptions are values.  Every constructor stands for a subclass of Python's
  \<open>Exception\<close>; \<open>OtherException n\<close> is any exception class raised by an
  external capability (normalizer, embedding service, graph backend) other than
  the ones named.
\<close>

datatype error =
    ValueError
  | AttributeError
  | RuntimeError
  | IndexError
  | FileNotFoundError
  | RateLimitError
  | OtherException nat

subsection \<open>Strings\<close>

text \<open>
  A Python \<open>str\<close> is modelled as a \<open>string\<close>; the characters are the code
  points below 256.  \<open>is_space\<close> lists the code points in that range for which
  \<open>str.isspace\<close> holds: these are what \<open>str.strip()\<close> removes.
\<close>

definition is_space :: "char \<Rightarrow> bool" where
  "is_space c \<longleftrightarrow> c \<in> set [CHR 0x09, CHR 0x0A, CHR 0x0B, CHR 0x0C, CHR 0x0D,
      CHR 0x1C, CHR 0x1D, CHR 0x1E, CHR 0x1F, CHR 0x20, CHR 0x85, CHR 0xA0]"

definition strip :: "string \<Rightarrow> string" where
  "strip s = rev (dropWhile is_space (rev (dropWhile is_space s)))"

text \<open>\<open>sep.join(xs)\<close>\<close>

fun join :: "string \<Rightarrow> string list \<Rightarrow> string" where
  "join sep [] = []"
| "join sep [x] = x"
| "join sep (x # y # ys) = x @ sep @ join sep (y # ys)"

text \<open>
  \<open>s.split(sep)\<close> for a non-empty \<open>sep\<close>: the pieces between the
  non-overlapping occurrences of \<open>sep\<close>, found from the left.  \<open>cur\<close> is the
  piece being read.  (Python raises ValueError on an empty separator; the
  chunker never calls it with one.)
\<close>

function split_from :: "string \<Rightarrow> string \<Rightarrow> string \<Rightarrow> string list" where
  "split_from sep cur [] = [cur]"
| "split_from sep cur (c # cs) =
     (if sep \<noteq> [] \<and> prefix sep (c # cs)
      then cur # split_from sep [] (drop (length sep) (c # cs))
      else split_from sep (cur @ [c]) cs)"
  by pat_completeness auto
termination
  by (relation "measure (\<lambda>(sep, cur, s). length s)") auto

definition split_str :: "string \<Rightarrow> string \<Rightarrow> string list" where
  "split_str s sep = split_from sep [] s"

text \<open>
  \<open>text.find(sub, start)\<close>: the lowest index \<open>i \<ge> start\<close> at which \<open>sub\<close>
  occurs in \<open>text\<close>, or \<open>-1\<close>.  A negative \<open>start\<close> counts from the end.
\<close>

fun find_at :: "string \<Rightarrow> string \<Rightarrow> nat \<Rightarrow> nat option" where
  "find_at sub [] i = (if sub = [] then Some i else None)"
| "find_at sub (c # cs) i =
     (if prefix sub (c # cs) then Some i else find_at sub cs (Suc i))"

definition str_find :: "string \<Rightarrow> string \<Rightarrow> int \<Rightarrow> int" where
  "str_find s sub start =
     (let b = (if start < 0 then max 0 (start + int (length s)) else start)
      in if b > int (length s) then - 1
         else (case find_at sub (drop (nat b) s) (nat b) of
                 None \<Rightarrow> - 1
               | Some i \<Rightarrow> int i))"

section \<open>The chunker (\<open>brain/ingest/chunker.py\<close>)\<close>

record chunk =
  chunk_id :: string
  chunk_doc_id :: string
  chunk_text :: string
  chunk_index :: int
  start_char :: int
  end_char :: int
  chunk_metadata :: "(string \<times> string) list"

text \<open>\<open>_SEPARATORS = ["\n\n", "\n", ". ", " ", ""]\<close>\<close>

definition SEPARATORS :: "string list" where
  "SEPARATORS = [[CHR 0x0A, CHR 0x0A], [CHR 0x0A], ''. '', '' '', '''']"

text \<open>
  The character-level split:
  \<open>for i in range(0, len(text), chunk_size): part = text[i:i+chunk_size].strip()\<close>.
  \<open>range\<close> raises ValueError on a zero step and is empty on a negative one.
\<close>

function char_loop :: "nat \<Rightarrow> nat \<Rightarrow> string \<Rightarrow> string list" where
  "char_loop i n s =
     (if n = 0 \<or> length s \<le> i then []
      else (let part = strip (take n (drop i s))
            in (if part \<noteq> [] then [part] else []) @ char_loop (i + n) n s))"
  by pat_completeness auto
termination
  by (relation "measure (\<lambda>(i, n, s). length s - i)") auto

definition char_split :: "string \<Rightarrow> int \<Rightarrow> error + string list" where
  "char_split s chunk_size =
     (if chunk_size = 0 then Inl ValueError
      else if chunk_size < 0 then Inr []
      else Inr (char_loop 0 (nat chunk_size) s))"

text \<open>
  The block that flushes the accumulated pieces; the source has it twice, inside
  the loop and after it.  \<open>rec\<close> is the recursive call with the finer separators.
\<close>

definition flush ::
  "(string \<Rightarrow> error + string list) \<Rightarrow> string \<Rightarrow> int \<Rightarrow> string list \<Rightarrow> string list
     \<Rightarrow> error + string list" where
  "flush rec sep chunk_size current result =
     (let merged = strip (join sep current)
      in if merged \<noteq> [] then
           (if int (length merged) > chunk_size then
              (case rec merged of Inl e \<Rightarrow> Inl e | Inr r \<Rightarrow> Inr (result @ r))
            else Inr (result @ [merged]))
         else Inr result)"

text \<open>The loop \<open>for piece in pieces\<close> with the final flush of the remainder.\<close>

fun split_loop ::
  "(string \<Rightarrow> error + string list) \<Rightarrow> string \<Rightarrow> int \<Rightarrow> string list \<Rightarrow> string list \<Rightarrow> int
     \<Rightarrow> string list \<Rightarrow> error + string list" where
  "split_loop rec sep chunk_size [] current current_len result =
     (if current \<noteq> [] then flush rec sep chunk_size current result else Inr result)"
| "split_loop rec sep chunk_size (piece # pieces) current current_len result =
     (let piece_len = int (length piece) + int (length sep)
      in if current_len + piece_len > chunk_size \<and> current \<noteq> [] then
           (case flush rec sep chunk_size current result of
              Inl e \<Rightarrow> Inl e
            | Inr result' \<Rightarrow>
                split_loop rec sep chunk_size pieces [piece] (int (length piece)) result')
         else split_loop rec sep chunk_size pieces (current @ [piece])
                (current_len + piece_len) result)"

function split_recursive :: "string \<Rightarrow> int \<Rightarrow> string list \<Rightarrow> error + string list" where
  "split_recursive s chunk_size separators =
     (if int (length s) \<le> chunk_size then Inr (if strip s \<noteq> [] then [strip s] else [])
      else if (case separators of [] \<Rightarrow> [] | x # _ \<Rightarrow> x) = [] then char_split s chunk_size
      else split_loop
             (\<lambda>merged. split_recursive merged chunk_size
                (if length separators > 1 then tl separators else [[]]))
             (case separators of [] \<Rightarrow> [] | x # _ \<Rightarrow> x) chunk_size
             (split_str s (case separators of [] \<Rightarrow> [] | x # _ \<Rightarrow> x)) [] 0 [])"
  by pat_completeness auto
termination
  by (relation "measure (\<lambda>(s, chunk_size, separators).
        (case separators of [] \<Rightarrow> 0 | x # _ \<Rightarrow> if x = [] then 0 else Suc (length separators)))")
     (auto split: list.splits)

text \<open>
  The loop of \<open>chunk_document\<close> over \<open>enumerate(raw_chunks)\<close>.  \<open>ids i\<close> is the
  \<open>uuid4\<close> drawn for the chunk of index \<open>i\<close>.
\<close>

fun chunk_loop ::
  "(nat \<Rightarrow> string) \<Rightarrow> string \<Rightarrow> string \<Rightarrow> int \<Rightarrow> (string \<times> string) list \<Rightarrow> nat \<Rightarrow> int
     \<Rightarrow> string list \<Rightarrow> chunk list" where
  "chunk_loop ids did s chunk_overlap md i offset [] = []"
| "chunk_loop ids did s chunk_overlap md i offset (ct # rest) =
     (let found = str_find s ct offset;
          start = (if found = - 1 then offset else found);
          end = start + int (length ct)
      in \<lparr>chunk_id = ids i, chunk_doc_id = did, chunk_text = ct, chunk_index = int i,
           start_char = start, end_char = end, chunk_metadata = md\<rparr>
         # chunk_loop ids did s chunk_overlap md (Suc i)
             (max (start + 1) (end - chunk_overlap)) rest)"

definition chunk_document ::
  "(nat \<Rightarrow> string) \<Rightarrow> string \<Rightarrow> string \<Rightarrow> int \<Rightarrow> int \<Rightarrow> (string \<times> string) list option
     \<Rightarrow> error + chunk list" where
  "chunk_document ids did s chunk_size chunk_overlap metadata =
     (if strip s = [] then Inr []
      else (case split_recursive s chunk_size SEPARATORS of
              Inl e \<Rightarrow> Inl e
            | Inr raw_chunks \<Rightarrow>
                Inr (chunk_loop ids did s chunk_overlap
                       (case metadata of None \<Rightarrow> [] | Some m \<Rightarrow> m) 0 0 raw_chunks)))"


section \<open>The graph client (\<open>brain/graph/client.py\<close>)\<close>

text \<open>
  \<open>GraphConfig\<close> as \<open>brain/config.py\<close> declares it: these five fields and no
  other.
\<close>

record graph_config =
  group_id :: string
  num_results :: int
  episode_size :: int
  max_coroutines :: int
  episode_delay :: int

text \<open>
  Reading a numeric setting of a \<open>GraphConfig\<close> object by the name of the
  attribute (\<open>group_id\<close>, the one string, is read through its selector).
  The class is a pydantic \<open>BaseModel\<close> with the default configuration: keys of
  its input that it does not declare are dropped, and reading an attribute that it
  does not declare raises AttributeError.  \<open>add_document\<close> reads
  \<open>cfg.graph.episode_size\<close> and \<open>cfg.graph.episode_delay\<close>, which are
  declared, and \<open>cfg.graph.max_episode_retries\<close> and
  \<open>cfg.graph.episode_retry_delay\<close>, which are not.
\<close>

definition graph_getattr :: "graph_config \<Rightarrow> string \<Rightarrow> error + int" where
  "graph_getattr g name =
     (if name = ''num_results'' then Inr (num_results g)
      else if name = ''episode_size'' then Inr (episode_size g)
      else if name = ''max_coroutines'' then Inr (max_coroutines g)
      else if name = ''episode_delay'' then Inr (episode_delay g)
      else Inl AttributeError)"

text \<open>
  What the program does to the graph backend, in order: a call of
  \<open>add_episode(name, episode_body, source_description)\<close> or an
  \<open>asyncio.sleep(seconds)\<close>.  The backend is external: the outcome of a call is
  a function of everything done so far and of the call's arguments.  It either
  returns \<open>len(results.nodes)\<close> and \<open>len(results.edges)\<close> or raises.
\<close>

datatype event = AddEpisode string string string | Sleep int

datatype outcome = Extracted nat nat | Raised error

record edge =
  fact :: string
  source_node_name :: string
  target_node_name :: string
  created_at :: "string option"
  uuid :: string

record graphiti =
  add_episode :: "event list \<Rightarrow> string \<Rightarrow> string \<Rightarrow> string \<Rightarrow> outcome"
  search_edges :: "string \<Rightarrow> string list \<Rightarrow> int \<Rightarrow> error + edge list"

text \<open>\<open>GraphClient\<close>: \<open>_graphiti\<close> is None until \<open>initialize()\<close> has run.\<close>

record graph_client =
  graphiti_of :: "graphiti option"

definition is_initialized :: "graph_client \<Rightarrow> bool" where
  "is_initialized gc \<longleftrightarrow> graphiti_of gc \<noteq> None"

record summary =
  total_nodes :: nat
  total_edges :: nat
  episodes_processed :: int
  episodes_failed :: int

text \<open>Decimal rendering of a number, as an f-string writes it.\<close>

function str_nat :: "nat \<Rightarrow> string" where
  "str_nat n =
     (if n < 10 then [char_of (48 + n)]
      else str_nat (n div 10) @ [char_of (48 + n mod 10)])"
  by pat_completeness auto
termination
  by (relation "measure id") auto

text \<open>
  \<open>blocks = [text[i : i + episode_size] for i in range(0, len(text), episode_size)]\<close>
\<close>

function block_loop :: "nat \<Rightarrow> nat \<Rightarrow> string \<Rightarrow> string list" where
  "block_loop i n s =
     (if n = 0 \<or> length s \<le> i then []
      else take n (drop i s) # block_loop (i + n) n s)"
  by pat_completeness auto
termination
  by (relation "measure (\<lambda>(i, n, s). length s - i)") auto

definition split_blocks :: "string \<Rightarrow> int \<Rightarrow> error + string list" where
  "split_blocks s esize =
     (if int (length s) \<le> esize then Inr [s]
      else if esize = 0 then Inl ValueError
      else if esize < 0 then Inr []
      else Inr (block_loop 0 (nat esize) s))"

text \<open>
  The retry loop \<open>for attempt in range(1, max_retries + 1)\<close> over the attempt
  numbers still to come.  The result is \<open>succeeded\<close>, the node and edge counts
  added, and the events so far.
\<close>

fun attempt_loop ::
  "graphiti \<Rightarrow> int \<Rightarrow> int \<Rightarrow> string \<Rightarrow> string \<Rightarrow> string \<Rightarrow> int list \<Rightarrow> event list
     \<Rightarrow> (bool \<times> nat \<times> nat) \<times> event list" where
  "attempt_loop b max_retries retry_delay name block desc [] trace =
     ((False, 0, 0), trace)"
| "attempt_loop b max_retries retry_delay name block desc (attempt # rest) trace =
     (case add_episode b trace name block desc of
        Extracted n e \<Rightarrow> ((True, n, e), trace @ [AddEpisode name block desc])
      | Raised err \<Rightarrow>
          if err = RateLimitError then
            (if attempt < max_retries then
               attempt_loop b max_retries retry_delay name block desc rest
                 (trace @ [AddEpisode name block desc, Sleep retry_delay])
             else
               attempt_loop b max_retries retry_delay name block desc rest
                 (trace @ [AddEpisode name block desc]))
          else ((False, 0, 0), trace @ [AddEpisode name block desc]))"

text \<open>
  The loop \<open>for i, block in enumerate(blocks)\<close>.  The accumulator is
  \<open>(total_nodes, total_edges, failed)\<close>.
\<close>

fun episode_loop ::
  "graph_config \<Rightarrow> graphiti \<Rightarrow> string \<Rightarrow> string \<Rightarrow> nat \<Rightarrow> nat \<Rightarrow> string list
     \<Rightarrow> nat \<times> nat \<times> int \<Rightarrow> event list \<Rightarrow> (error + nat \<times> nat \<times> int) \<times> event list" where
  "episode_loop g b ttl path total_episodes i [] acc trace = (Inr acc, trace)"
| "episode_loop g b ttl path total_episodes i (block # rest) acc trace =
     (let part = ''part '' @ str_nat (i + 1) @ ''/'' @ str_nat total_episodes;
          name = (if total_episodes > 1 then ttl @ '' ['' @ part @ '']'' else ttl);
          desc = (if total_episodes > 1 then ''Document: '' @ path @ '' ('' @ part @ '')''
                  else ''Document: '' @ path);
          trace1 = (if i > 0 \<and> total_episodes > 1 then trace @ [Sleep (episode_delay g)]
                    else trace)
      in case graph_getattr g ''max_episode_retries'' of
           Inl e \<Rightarrow> (Inl e, trace1)
         | Inr max_retries \<Rightarrow>
             (case graph_getattr g ''episode_retry_delay'' of
                Inl e \<Rightarrow> (Inl e, trace1)
              | Inr retry_delay \<Rightarrow>
                  (case attempt_loop b max_retries retry_delay name block desc
                          [1..max_retries] trace1 of
                     ((succeeded, n, e), trace2) \<Rightarrow>
                       (case acc of (tn, te, failed) \<Rightarrow>
                          episode_loop g b ttl path total_episodes (Suc i) rest
                            (if succeeded then (tn + n, te + e, failed)
                             else (tn, te, failed + 1))
                            trace2))))"

text \<open>
  \<open>GraphClient.add_document\<close>, for a document with the given title, source path
  and text.  (The reference time only travels to the backend.)
\<close>

definition add_document ::
  "graph_config \<Rightarrow> graph_client \<Rightarrow> string \<Rightarrow> string \<Rightarrow> string \<Rightarrow> event list
     \<Rightarrow> (error + summary) \<times> event list" where
  "add_document g gc ttl path s trace =
     (case graphiti_of gc of
        None \<Rightarrow> (Inl RuntimeError, trace)
      | Some b \<Rightarrow>
          (case split_blocks s (episode_size g) of
             Inl e \<Rightarrow> (Inl e, trace)
           | Inr blocks \<Rightarrow>
               (case episode_loop g b ttl path (length blocks) 0 blocks (0, 0, 0) trace of
                  (Inl e, trace') \<Rightarrow> (Inl e, trace')
                | (Inr (tn, te, failed), trace') \<Rightarrow>
                    (Inr \<lparr>total_nodes = tn, total_edges = te,
                          episodes_processed = int (length blocks) - failed,
                          episodes_failed = failed\<rparr>, trace'))))"

text \<open>\<open>GraphClient.search\<close>\<close>

record graph_fact =
  gf_fact :: string
  gf_source_node :: string
  gf_target_node :: string
  gf_created_at :: "string option"
  gf_uuid :: string

definition graph_search ::
  "graph_config \<Rightarrow> graph_client \<Rightarrow> string \<Rightarrow> int option \<Rightarrow> error + graph_fact list" where
  "graph_search g gc query n =
     (case graphiti_of gc of
        None \<Rightarrow> Inl RuntimeError
      | Some b \<Rightarrow>
          (case search_edges b query [group_id g]
                  (case n of None \<Rightarrow> num_results g | Some k \<Rightarrow> k) of
             Inl e \<Rightarrow> Inl e
           | Inr edges \<Rightarrow>
               Inr (map (\<lambda>ed. \<lparr>gf_fact = fact ed, gf_source_node = source_node_name ed,
                                gf_target_node = target_node_name ed,
                                gf_created_at = created_at ed, gf_uuid = uuid ed\<rparr>) edges)))"

section \<open>The data model (\<open>brain/models.py\<close>)\<close>

datatype doc_type = DOCX | PPTX | TEXT | IMAGE

definition doc_type_value :: "doc_type \<Rightarrow> string" where
  "doc_type_value t =
     (case t of DOCX \<Rightarrow> ''docx'' | PPTX \<Rightarrow> ''pptx'' | TEXT \<Rightarrow> ''text'' | IMAGE \<Rightarrow> ''image'')"

record document =
  doc_id :: string
  source_path :: string
  doc_type :: doc_type
  title :: string
  doc_text :: string
  doc_metadata :: "(string \<times> string) list"
  content_hash :: string
  mtime :: real
  ingested_at :: real

record citation =
  cit_doc_id :: string
  cit_chunk_id :: string
  cit_source_path :: string
  cit_title :: string
  cit_chunk_index :: int
  cit_snippet :: string
  cit_score :: real

section \<open>The document store (\<open>brain/stores/docstore.py\<close>)\<close>

text \<open>
  The two SQLite tables, as the lists of their rows in insertion order.
  \<open>documents\<close> has the primary key \<open>doc_id\<close> and a unique index on
  \<open>source_path\<close>; \<open>chunks\<close> has the primary key \<open>chunk_id\<close>.
  \<open>INSERT OR REPLACE\<close> deletes the rows that conflict with the new row on a
  key or unique index, then inserts.  An INTEGER column holds 64 bits and sqlite3
  raises \<open>OverflowError\<close> on a larger Python int.  The rows are modelled with
  unbounded integers and without that branch: the model is the store for
  \<open>chunk_index\<close>, \<open>start_char\<close> and \<open>end_char\<close> below \<open>2 ^ 63\<close>, which a
  non-negative overlap guarantees for every text shorter than that.
\<close>

record doc_store =
  documents :: "document list"
  chunks :: "chunk list"

definition upsert_document :: "doc_store \<Rightarrow> document \<Rightarrow> doc_store" where
  "upsert_document ds d =
     ds\<lparr>documents :=
          filter (\<lambda>r. doc_id r \<noteq> doc_id d \<and> source_path r \<noteq> source_path d) (documents ds)
          @ [d]\<rparr>"

definition get_document :: "doc_store \<Rightarrow> string \<Rightarrow> document option" where
  "get_document ds did = List.find (\<lambda>r. doc_id r = did) (documents ds)"

definition get_document_by_path :: "doc_store \<Rightarrow> string \<Rightarrow> document option" where
  "get_document_by_path ds path = List.find (\<lambda>r. source_path r = path) (documents ds)"

definition is_unchanged :: "doc_store \<Rightarrow> string \<Rightarrow> string \<Rightarrow> bool" where
  "is_unchanged ds path h =
     (case List.find (\<lambda>r. source_path r = path) (documents ds) of
        None \<Rightarrow> False
      | Some row \<Rightarrow> content_hash row = h)"

definition ds_upsert_chunks :: "doc_store \<Rightarrow> chunk list \<Rightarrow> doc_store" where
  "ds_upsert_chunks ds cs =
     ds\<lparr>chunks := fold (\<lambda>c rows. filter (\<lambda>r. chunk_id r \<noteq> chunk_id c) rows @ [c]) cs
                     (chunks ds)\<rparr>"

definition get_chunks_for_doc :: "doc_store \<Rightarrow> string \<Rightarrow> chunk list" where
  "get_chunks_for_doc ds did =
     sort_key chunk_index (filter (\<lambda>c. chunk_doc_id c = did) (chunks ds))"

definition delete_doc_chunks :: "doc_store \<Rightarrow> string \<Rightarrow> doc_store" where
  "delete_doc_chunks ds did = ds\<lparr>chunks := filter (\<lambda>c. chunk_doc_id c \<noteq> did) (chunks ds)\<rparr>"

section \<open>The vector store (\<open>brain/stores/vectorstore.py\<close>)\<close>

record point =
  point_id :: string
  point_vector :: "real list"
  payload_chunk_id :: string
  payload_doc_id :: string
  payload_text :: string
  payload_index :: int
  payload_metadata :: "(string \<times> string) list"

type_synonym vector_store = "point list"

definition point_of :: "chunk \<Rightarrow> real list \<Rightarrow> point" where
  "point_of c e =
     \<lparr>point_id = chunk_id c, point_vector = e, payload_chunk_id = chunk_id c,
      payload_doc_id = chunk_doc_id c, payload_text = chunk_text c,
      payload_index = chunk_index c, payload_metadata = chunk_metadata c\<rparr>"

definition vs_upsert_chunks :: "vector_store \<Rightarrow> chunk list \<Rightarrow> real list list \<Rightarrow> vector_store" where
  "vs_upsert_chunks vs cs embeddings =
     fold (\<lambda>p pts. filter (\<lambda>q. point_id q \<noteq> point_id p) pts @ [p])
       (map (\<lambda>(c, e). point_of c e) (zip cs embeddings)) vs"

definition delete_by_doc_id :: "vector_store \<Rightarrow> string \<Rightarrow> vector_store" where
  "delete_by_doc_id vs did = filter (\<lambda>p. payload_doc_id p \<noteq> did) vs"

record hit =
  hit_chunk_id :: string
  hit_doc_id :: string
  hit_text :: string
  hit_index :: int
  hit_score :: real
  hit_metadata :: "(string \<times> string) list"

section \<open>The environment\<close>

datatype normalizer = normalize_docx | normalize_pptx | normalize_text | normalize_image

text \<open>
  What the program gets from outside: the file system, the text extraction of the
  normalizers, the embedding service, the similarity ranking of the vector index,
  the random identifiers and the clock.  Paths are resolved paths, as strings.
  \<^item> \<open>suffix_lower p\<close> is \<open>p.suffix.lower()\<close>;
  \<^item> \<open>file_hash p\<close> is \<open>sha256(p.read_bytes()).hexdigest()\<close>, None when the
    file does not exist;
  \<^item> \<open>extract_text nz p\<close> is the title, text and metadata a normalizer reads from
    the file, or the exception it raises;
  \<^item> \<open>uuid4 n\<close> is the \<open>n\<close>-th identifier drawn, \<open>utc_now n\<close> the clock at
    that moment;
  \<^item> \<open>embed texts\<close> is \<open>llm.embed(texts)\<close>;
  \<^item> \<open>query_points pts q k\<close> is the index's answer: the \<open>k\<close> nearest points with
    their scores;
  \<^item> \<open>rglob\<close>, \<open>is_file\<close> and \<open>sorted_paths\<close> are the directory scan and
    the ordering of \<open>Path\<close> objects used by \<open>ingest_folder\<close>.
\<close>

record world =
  suffix_lower :: "string \<Rightarrow> string"
  file_hash :: "string \<Rightarrow> string option"
  stat_mtime :: "string \<Rightarrow> real"
  extract_text :: "normalizer \<Rightarrow> string \<Rightarrow> error + string \<times> string \<times> (string \<times> string) list"
  uuid4 :: "nat \<Rightarrow> string"
  utc_now :: "nat \<Rightarrow> real"
  embed :: "string list \<Rightarrow> error + real list list"
  query_points :: "point list \<Rightarrow> real list \<Rightarrow> int \<Rightarrow> error + (point \<times> real) list"
  rglob :: "string \<Rightarrow> string list"
  is_file :: "string \<Rightarrow> bool"
  sorted_paths :: "string list \<Rightarrow> string list"

text \<open>The settings read through \<open>get_settings()\<close>.\<close>

record settings =
  cfg_chunk_size :: int
  cfg_chunk_overlap :: int
  cfg_graph :: graph_config
  cfg_top_k :: int
  cfg_graph_results :: int
  cfg_snippet_length :: int

text \<open>\<open>VectorStore.search\<close>\<close>

definition vs_search :: "world \<Rightarrow> vector_store \<Rightarrow> real list \<Rightarrow> int \<Rightarrow> error + hit list" where
  "vs_search w vs q k =
     (case query_points w vs q k of
        Inl e \<Rightarrow> Inl e
      | Inr rs \<Rightarrow>
          Inr (map (\<lambda>(p, sc). \<lparr>hit_chunk_id = payload_chunk_id p, hit_doc_id = payload_doc_id p,
                                hit_text = payload_text p, hit_index = payload_index p,
                                hit_score = sc, hit_metadata = payload_metadata p\<rparr>) rs))"

section \<open>The normalizers (\<open>brain/ingest/normalizers.py\<close>)\<close>

definition NORMALIZERS :: "(string \<times> normalizer) list" where
  "NORMALIZERS =
     [(''.docx'', normalize_docx), (''.pptx'', normalize_pptx), (''.txt'', normalize_text),
      (''.md'', normalize_text), (''.csv'', normalize_text), (''.json'', normalize_text),
      (''.yaml'', normalize_text), (''.yml'', normalize_text), (''.png'', normalize_image),
      (''.jpg'', normalize_image), (''.jpeg'', normalize_image), (''.webp'', normalize_image),
      (''.heic'', normalize_image)]"

definition get_normalizer :: "world \<Rightarrow> string \<Rightarrow> normalizer option" where
  "get_normalizer w path = map_of NORMALIZERS (suffix_lower w path)"

definition normalizer_doc_type :: "normalizer \<Rightarrow> doc_type" where
  "normalizer_doc_type nz =
     (case nz of normalize_docx \<Rightarrow> DOCX | normalize_pptx \<Rightarrow> PPTX
      | normalize_text \<Rightarrow> TEXT | normalize_image \<Rightarrow> IMAGE)"

text \<open>\<open>Document.compute_hash\<close>\<close>

definition compute_hash :: "world \<Rightarrow> document \<Rightarrow> document" where
  "compute_hash w d =
     (case file_hash w (source_path d) of
        None \<Rightarrow> d
      | Some h \<Rightarrow> d\<lparr>content_hash := h, mtime := stat_mtime w (source_path d)\<rparr>)"

text \<open>
  Running a normalizer: each of the four builds
  \<open>Document(source_path=str(path), doc_type=..., title=..., text=...)\<close> from what it
  extracted (the \<open>doc_id\<close> is a fresh \<open>uuid4\<close>) and calls \<open>compute_hash\<close>.
\<close>

definition normalize :: "world \<Rightarrow> normalizer \<Rightarrow> string \<Rightarrow> nat \<Rightarrow> error + document" where
  "normalize w nz path n =
     (case extract_text w nz path of
        Inl e \<Rightarrow> Inl e
      | Inr (ttl, txt, md) \<Rightarrow>
          Inr (compute_hash w
                 \<lparr>doc_id = uuid4 w n, source_path = path, doc_type = normalizer_doc_type nz,
                  title = ttl, doc_text = txt, doc_metadata = md, content_hash = [],
                  mtime = 0, ingested_at = utc_now w n\<rparr>))"

section \<open>The ingestion pipeline (\<open>brain/ingest/pipeline.py\<close>)\<close>

text \<open>
  The state the pipeline works on: the two stores it is passed (\<open>vectorstore\<close> is
  None when the caller passes none), what has been done to the graph backend, and
  how many identifiers have been drawn.
\<close>

record state =
  docstore :: doc_store
  vectorstore :: "vector_store option"
  graph_trace :: "event list"
  uuid_count :: nat

text \<open>
  ``Check if file has changed since last ingestion'': True when the file is to be
  skipped.
\<close>

definition check_unchanged :: "world \<Rightarrow> string \<Rightarrow> bool \<Rightarrow> state \<Rightarrow> error + bool" where
  "check_unchanged w path force st =
     (if \<not> force then
        (case file_hash w path of
           None \<Rightarrow> Inl FileNotFoundError
         | Some h \<Rightarrow> Inr (is_unchanged (docstore st) path h))
      else Inr False)"

text \<open>
  ``Check for re-ingestion: if this path was previously ingested, reuse the doc_id
  and clean up old chunks/vectors''.
\<close>

definition replace_existing :: "string \<Rightarrow> document \<Rightarrow> state \<Rightarrow> document \<times> state" where
  "replace_existing path doc st =
     (case get_document_by_path (docstore st) path of
        None \<Rightarrow> (doc, st)
      | Some existing \<Rightarrow>
          (doc\<lparr>doc_id := doc_id existing\<rparr>,
           st\<lparr>docstore := delete_doc_chunks (docstore st) (doc_id existing),
              vectorstore := (case vectorstore st of
                                None \<Rightarrow> None
                              | Some vs \<Rightarrow> Some (delete_by_doc_id vs (doc_id existing)))\<rparr>))"

text \<open>``Embed and store vectors''\<close>

definition embed_and_store :: "world \<Rightarrow> chunk list \<Rightarrow> state \<Rightarrow> error + state" where
  "embed_and_store w cs st =
     (case vectorstore st of
        None \<Rightarrow> Inr st
      | Some vs \<Rightarrow>
          if cs \<noteq> [] then
            (case embed w (map chunk_text cs) of
               Inl e \<Rightarrow> Inl e
             | Inr embeddings \<Rightarrow> Inr (st\<lparr>vectorstore := Some (vs_upsert_chunks vs cs embeddings)\<rparr>))
          else Inr st)"

text \<open>
  ``Graph extraction (after vector store, so retrieval works even if graph
  fails)'': the \<open>try\<close> block with its \<open>except Exception\<close>, which logs and goes on.
\<close>

definition graph_extraction :: "settings \<Rightarrow> graph_client option \<Rightarrow> document \<Rightarrow> state \<Rightarrow> state" where
  "graph_extraction cfg gc doc st =
     (case gc of
        None \<Rightarrow> st
      | Some g \<Rightarrow>
          if is_initialized g then
            (case add_document (cfg_graph cfg) g (title doc) (source_path doc) (doc_text doc)
                    (graph_trace st) of
               (Inl e, trace) \<Rightarrow> st\<lparr>graph_trace := trace\<rparr>
             | (Inr sm, trace) \<Rightarrow> st\<lparr>graph_trace := trace\<rparr>)
          else st)"

definition ingest_file ::
  "world \<Rightarrow> settings \<Rightarrow> string \<Rightarrow> bool \<Rightarrow> graph_client option \<Rightarrow> state
     \<Rightarrow> (error + document option) \<times> state" where
  "ingest_file w cfg path force gc st =
     (case get_normalizer w path of
        None \<Rightarrow> (Inr None, st)
      | Some nz \<Rightarrow>
          (case check_unchanged w path force st of
             Inl e \<Rightarrow> (Inl e, st)
           | Inr True \<Rightarrow> (Inr None, st)
           | Inr False \<Rightarrow>
               (case normalize w nz path (uuid_count st) of
                  Inl e \<Rightarrow> (Inl e, st)
                | Inr doc0 \<Rightarrow>
                    (case replace_existing path doc0 (st\<lparr>uuid_count := Suc (uuid_count st)\<rparr>) of
                       (doc, st1) \<Rightarrow>
                         (case chunk_document (\<lambda>i. uuid4 w (uuid_count st1 + i)) (doc_id doc)
                                 (doc_text doc) (cfg_chunk_size cfg) (cfg_chunk_overlap cfg)
                                 (Some [(''source_path'', source_path doc),
                                        (''doc_type'', doc_type_value (doc_type doc))]) of
                            Inl e \<Rightarrow> (Inl e, st1)
                          | Inr cs \<Rightarrow>
                              (case embed_and_store w cs
                                      (st1\<lparr>docstore :=
                                             ds_upsert_chunks (upsert_document (docstore st1) doc) cs,
                                           uuid_count := uuid_count st1 + length cs\<rparr>) of
                                 Inl e \<Rightarrow>
                                   (Inl e,
                                    st1\<lparr>docstore :=
                                          ds_upsert_chunks (upsert_document (docstore st1) doc) cs,
                                        uuid_count := uuid_count st1 + length cs\<rparr>)
                               | Inr st2 \<Rightarrow> (Inr (Some doc), graph_extraction cfg gc doc st2)))))))"




section \<open>The retriever (\<open>brain/chat/retriever.py\<close>)\<close>

text \<open>The slice \<open>s[:n]\<close>\<close>

definition slice_to :: "string \<Rightarrow> int \<Rightarrow> string" where
  "slice_to s n = (if 0 \<le> n then take (nat n) s else take (length s - nat (- n)) s)"

definition build_citation :: "doc_store \<Rightarrow> int \<Rightarrow> hit \<Rightarrow> citation" where
  "build_citation ds snippet_length r =
     (let doc = get_document ds (hit_doc_id r)
      in \<lparr>cit_doc_id = hit_doc_id r, cit_chunk_id = hit_chunk_id r,
          cit_source_path = (case doc of Some d \<Rightarrow> source_path d | None \<Rightarrow> []),
          cit_title = (case doc of Some d \<Rightarrow> title d | None \<Rightarrow> []),
          cit_chunk_index = hit_index r,
          cit_snippet = slice_to (hit_text r) snippet_length,
          cit_score = hit_score r\<rparr>)"

definition retrieve_chunks ::
  "world \<Rightarrow> settings \<Rightarrow> string \<Rightarrow> vector_store \<Rightarrow> doc_store \<Rightarrow> int option
     \<Rightarrow> error + citation list" where
  "retrieve_chunks w cfg query vs ds top_k =
     (case embed w [query] of
        Inl e \<Rightarrow> Inl e
      | Inr embeddings \<Rightarrow>
          (case embeddings of
             [] \<Rightarrow> Inl IndexError
           | query_emb # _ \<Rightarrow>
               (case vs_search w vs query_emb
                       (case top_k of None \<Rightarrow> cfg_top_k cfg | Some k \<Rightarrow> k) of
                  Inl e \<Rightarrow> Inl e
                | Inr results \<Rightarrow>
                    Inr (map (build_citation ds (cfg_snippet_length cfg)) results))))"

definition retrieve_fusion ::
  "world \<Rightarrow> settings \<Rightarrow> string \<Rightarrow> vector_store \<Rightarrow> doc_store \<Rightarrow> graph_client \<Rightarrow> int option
     \<Rightarrow> int option \<Rightarrow> error + citation list \<times> graph_fact list" where
  "retrieve_fusion w cfg query vs ds gc top_k graph_results =
     (case retrieve_chunks w cfg query vs ds top_k of
        Inl e \<Rightarrow> Inl e
      | Inr citations \<Rightarrow>
          if is_initialized gc then
            (case graph_search (cfg_graph cfg) gc query
                    (Some (case graph_results of None \<Rightarrow> cfg_graph_results cfg | Some k \<Rightarrow> k)) of
               Inl e \<Rightarrow> Inl e
             | Inr graph_facts \<Rightarrow> Inr (citations, graph_facts))
          else Inr (citations, []))"

section \<open>Notions used in the proofs\<close>

text \<open>
  \<open>in_order cs s\<close>: the strings \<open>cs\<close> occur in \<open>s\<close> one after the other, in this
  order and without overlapping.  \<open>good\<close> adds that none of them is empty.
\<close>

fun in_order :: "string list \<Rightarrow> string \<Rightarrow> bool" where
  "in_order [] s = True"
| "in_order (c # cs) s = (\<exists>pre post. s = pre @ c @ post \<and> in_order cs post)"

definition good :: "string list \<Rightarrow> string \<Rightarrow> bool" where
  "good r s \<longleftrightarrow> in_order r s \<and> [] \<notin> set r"


text \<open>
  What \<open>n\<close> attempts of one call look like when a sleep of \<open>d\<close> seconds lies
  between consecutive attempts.
\<close>

fun retry_trace :: "nat \<Rightarrow> event \<Rightarrow> int \<Rightarrow> event list" where
  "retry_trace 0 ev d = []"
| "retry_trace (Suc 0) ev d = [ev]"
| "retry_trace (Suc (Suc n)) ev d = ev # Sleep d # retry_trace (Suc n) ev d"

fun is_call :: "event \<Rightarrow> bool" where
  "is_call (AddEpisode name body desc) = True"
| "is_call (Sleep d) = False"

section \<open>Concrete inputs\<close>

text \<open>
  An environment to run the program in: the folder \<open>/d\<close> holds \<open>a.txt\<close>,
  \<open>b.txt\<close> and \<open>c.txt\<close>; every file reads as the text \<open>ab cd\<close>; the embedding service
  answers one number per text; the index returns its first points with score 1;
  the \<open>n\<close>-th identifier drawn (counting from 0) is \<open>n + 1\<close> times the letter u.
\<close>

definition world0 :: world where
  "world0 =
     \<lparr>suffix_lower = (\<lambda>p. drop (length p - 4) p),
      file_hash = (\<lambda>p. Some (''sha:'' @ p)),
      stat_mtime = (\<lambda>p. 0),
      extract_text = (\<lambda>nz p. Inr (p, ''ab cd'', [])),
      uuid4 = (\<lambda>n. replicate (Suc n) CHR ''u''),
      utc_now = (\<lambda>n. 0),
      embed = (\<lambda>ts. Inr (map (\<lambda>t. [1]) ts)),
      query_points = (\<lambda>pts q k. Inr (map (\<lambda>p. (p, 1)) (take (nat k) pts))),
      rglob = (\<lambda>folder. [''/d/a.txt'', ''/d/b.txt'', ''/d/c.txt'']),
      is_file = (\<lambda>p. True),
      sorted_paths = (\<lambda>ps. ps)\<rparr>"

definition graph_config0 :: graph_config where
  "graph_config0 =
     \<lparr>group_id = ''brain'', num_results = 10, episode_size = 100000, max_coroutines = 3,
      episode_delay = 15\<rparr>"

definition settings0 :: settings where
  "settings0 =
     \<lparr>cfg_chunk_size = 2, cfg_chunk_overlap = 0, cfg_graph = graph_config0, cfg_top_k = 5,
      cfg_graph_results = 10, cfg_snippet_length = 300\<rparr>"

definition state0 :: state where
  "state0 =
     \<lparr>docstore = \<lparr>documents = [], chunks = []\<rparr>, vectorstore = Some [], graph_trace = [],
      uuid_count = 0\<rparr>"

text \<open>A graph backend that is rate-limited on every call, and a client holding it.\<close>

definition graphiti0 :: graphiti where
  "graphiti0 =
     \<lparr>add_episode = (\<lambda>trace name body desc. Raised RateLimitError),
      search_edges = (\<lambda>query groups n. Inr [])\<rparr>"

definition graph_client0 :: graph_client where
  "graph_client0 = \<lparr>graphiti_of = Some graphiti0\<rparr>"

text \<open>A vector store with one point whose document is in no document store.\<close>

definition orphan_point :: point where
  "orphan_point =
     \<lparr>point_id = ''c1'', point_vector = [1], payload_chunk_id = ''c1'', payload_doc_id = ''gone'',
      payload_text = ''ab'', payload_index = 0, payload_metadata = []\<rparr>"

text \<open>A graph backend that extracts one node and one edge from every episode.\<close>

definition graphiti1 :: graphiti where
  "graphiti1 =
     \<lparr>add_episode = (\<lambda>trace name body desc. Extracted 1 1),
      search_edges = (\<lambda>query groups n. Inr [])\<rparr>"


definition world_edited :: world where
  "world_edited =
     world0\<lparr>file_hash := (\<lambda>p. Some (''sha2:'' @ p)),
            extract_text := (\<lambda>nz p. Inr (p, ''xy'', []))\<rparr>"

text \<open>The document of \<open>a.txt\<close> and the state after ingesting it into the empty stores.\<close>

definition doc_a :: document where
  "doc_a =
     \<lparr>doc_id = ''u'', source_path = ''/d/a.txt'', doc_type = TEXT, title = ''/d/a.txt'',
      doc_text = ''ab cd'', doc_metadata = [], content_hash = ''sha:/d/a.txt'', mtime = 0,
      ingested_at = 0\<rparr>"

definition state_a :: state where
  "state_a = snd (ingest_file world0 settings0 ''/d/a.txt'' False None state0)"

text \<open>
  The document of the edited \<open>a.txt\<close> and the state after ingesting it again, and
  the document of \<open>c.txt\<close> when it is ingested after \<open>a.txt\<close>.
\<close>

definition doc_a_edited :: document where
  "doc_a_edited =
     \<lparr>doc_id = ''u'', source_path = ''/d/a.txt'', doc_type = TEXT, title = ''/d/a.txt'',
      doc_text = ''xy'', doc_metadata = [], content_hash = ''sha2:/d/a.txt'', mtime = 0,
      ingested_at = 0\<rparr>"

definition state_a_edited :: state where
  "state_a_edited = snd (ingest_file world_edited settings0 ''/d/a.txt'' False None state_a)"

text \<open>The one chunk of the edited \<open>a.txt\<close>.\<close>

definition chunk_xy :: chunk where
  "chunk_xy =
     \<lparr>chunk_id = ''uuuuu'', chunk_doc_id = ''u'', chunk_text = ''xy'', chunk_index = 0,
      start_char = 0, end_char = 2,
      chunk_metadata = [(''source_path'', ''/d/a.txt''), (''doc_type'', ''text'')]\<rparr>"


section \<open>The chunker: every raw chunk is a piece of the text, in order\<close>



lemma in_order_prepend: "in_order xs b \<Longrightarrow> in_order xs (a @ b)"
proof (cases xs)
  case Nil then show ?thesis by simp
next
  case (Cons c cs)
  assume "in_order xs b"
  with Cons obtain pre post where "b = pre @ c @ post" "in_order cs post" by auto
  then have "a @ b = (a @ pre) @ c @ post \<and> in_order cs post" by simp
  then show ?thesis unfolding Cons in_order.simps by blast
qed

lemma in_order_append:
  "in_order xs a \<Longrightarrow> in_order ys b \<Longrightarrow> in_order (xs @ ys) (a @ b)"
proof (induction xs arbitrary: a)
  case Nil
  then show ?case by (simp add: in_order_prepend)
next
  case (Cons c cs)
  then obtain pre post where a: "a = pre @ c @ post" and r: "in_order cs post" by auto
  from Cons.IH [OF r Cons.prems(2)] have "in_order (cs @ ys) (post @ b)" .
  moreover have "a @ b = pre @ c @ (post @ b)" using a by simp
  ultimately have "a @ b = pre @ c @ (post @ b) \<and> in_order (cs @ ys) (post @ b)" by simp
  then show ?case unfolding append_Cons in_order.simps by blast
qed

lemma in_order_extend: "in_order xs a \<Longrightarrow> in_order xs (a @ b)"
  using in_order_append [of xs a "[]" b] by simp

lemma strip_decomp: "\<exists>pre post. s = pre @ strip s @ post"
proof -
  let ?d = "dropWhile is_space s"
  have "rev (takeWhile is_space (rev ?d) @ dropWhile is_space (rev ?d)) = rev (rev ?d)"
    by (simp only: takeWhile_dropWhile_id)
  then have "rev (dropWhile is_space (rev ?d)) @ rev (takeWhile is_space (rev ?d)) = ?d"
    by (simp only: rev_append rev_rev_ident)
  then have d: "?d = strip s @ rev (takeWhile is_space (rev ?d))"
    by (simp only: strip_def)
  have "s = takeWhile is_space s @ ?d" by simp
  with d have "s = takeWhile is_space s @ strip s @ rev (takeWhile is_space (rev ?d))" by simp
  then show ?thesis by blast
qed

lemma in_order_strip: "in_order [strip s] s"
  using strip_decomp [of s] by simp

lemma in_order_take_drop: "in_order xs (take n (drop i s)) \<Longrightarrow> in_order ys (drop (i + n) s)
   \<Longrightarrow> in_order (xs @ ys) (drop i s)"
proof -
  assume a: "in_order xs (take n (drop i s))" and b: "in_order ys (drop (i + n) s)"
  have "drop i s = take n (drop i s) @ drop n (drop i s)"
    by (simp only: append_take_drop_id)
  then have "drop i s = take n (drop i s) @ drop (i + n) s"
    by (simp add: add.commute)
  with in_order_append [OF a b] show ?thesis by simp
qed

lemma char_loop_in_order: "in_order (char_loop i n s) (drop i s)"
proof (induction i n s rule: char_loop.induct)
  case (1 i n s)
  show ?case
  proof (cases "n = 0 \<or> length s \<le> i")
    case True
    then show ?thesis by (subst char_loop.simps) simp
  next
    case False
    let ?part = "strip (take n (drop i s))"
    have ih: "in_order (char_loop (i + n) n s) (drop (i + n) s)"
      using "1.IH" [OF False refl] .
    have "in_order [?part] (take n (drop i s))" by (rule in_order_strip)
    then have p: "in_order (if ?part \<noteq> [] then [?part] else []) (take n (drop i s))"
      by simp
    from in_order_take_drop [OF p ih] False show ?thesis
      by (subst char_loop.simps) (simp add: Let_def)
  qed
qed

lemma char_loop_nonempty: "[] \<notin> set (char_loop i n s)"
proof (induction i n s rule: char_loop.induct)
  case (1 i n s)
  show ?case
  proof (cases "n = 0 \<or> length s \<le> i")
    case True
    then show ?thesis by (subst char_loop.simps) simp
  next
    case False
    with "1.IH" [OF False refl] show ?thesis
      by (subst char_loop.simps) (simp add: Let_def)
  qed
qed



lemma char_split_good: "char_split s n = Inr r \<Longrightarrow> good r s"
  using char_loop_in_order [of 0 "nat n" s] char_loop_nonempty [of 0 "nat n" s]
  by (auto simp: char_split_def good_def split: if_splits)

lemma split_from_nonempty: "split_from sep cur s \<noteq> []"
  by (induction sep cur s rule: split_from.induct) auto

lemma join_Cons: "ys \<noteq> [] \<Longrightarrow> join sep (x # ys) = x @ sep @ join sep ys"
  by (cases ys) auto

lemma join_split_from: "join sep (split_from sep cur s) = cur @ s"
proof (induction sep cur s rule: split_from.induct)
  case (1 sep cur)
  then show ?case by simp
next
  case (2 sep cur c cs)
  show ?case
  proof (cases "sep \<noteq> [] \<and> prefix sep (c # cs)")
    case True
    then have "c # cs = sep @ drop (length sep) (c # cs)"
      by (metis append_eq_conv_conj prefix_def)
    with True "2.IH"(1) [OF True] show ?thesis
      by (simp add: join_Cons split_from_nonempty del: drop_Suc_Cons) 
  next
    case False
    then have "split_from sep cur (c # cs) = split_from sep (cur @ [c]) cs" by auto
    with "2.IH"(2) [OF False] show ?thesis by simp
  qed
qed

lemma join_split_str: "join sep (split_str s sep) = s"
  by (simp add: split_str_def join_split_from)

lemma join_append:
  "xs \<noteq> [] \<Longrightarrow> ys \<noteq> [] \<Longrightarrow> join sep (xs @ ys) = join sep xs @ sep @ join sep ys"
proof (induction xs)
  case Nil then show ?case by simp
next
  case (Cons x xs)
  then show ?case by (cases xs) (auto simp: join_Cons)
qed

lemma good_append: "good xs a \<Longrightarrow> good ys b \<Longrightarrow> good (xs @ ys) (a @ b)"
  by (auto simp: good_def in_order_append)

lemma good_extend: "good xs a \<Longrightarrow> good xs (a @ b)"
  by (auto simp: good_def in_order_extend)

lemma flush_good:
  assumes rec: "\<And>m r. rec m = Inr r \<Longrightarrow> good r m"
    and res: "good result a"
    and fl: "flush rec sep n current result = Inr r"
  shows "good r (a @ join sep current)"
proof -
  let ?m = "strip (join sep current)"
  show ?thesis
  proof (cases "?m = []")
    case True
    with fl res show ?thesis by (simp add: flush_def good_extend)
  next
    case False
    have sub: "in_order [?m] (join sep current)" by (rule in_order_strip)
    show ?thesis
    proof (cases "int (length ?m) > n")
      case True
      with fl False obtain r' where r': "rec ?m = Inr r'" and r: "r = result @ r'"
        by (auto simp: flush_def Let_def split: sum.splits)
      from rec [OF r'] have g: "good r' ?m" .
      obtain p q where pq: "join sep current = p @ ?m @ q" using strip_decomp by blast
      from g have "good r' (p @ ?m @ q)"
        by (metis good_def in_order_prepend in_order_extend)
      with pq have "good r' (join sep current)" by simp
      with res r show ?thesis by (simp add: good_append)
    next
      case False': False
      with fl False have r: "r = result @ [?m]" by (auto simp: flush_def Let_def)
      from sub False have "good [?m] (join sep current)" by (simp add: good_def)
      with res r show ?thesis by (simp add: good_append)
    qed
  qed
qed

lemma split_loop_good:
  assumes rec: "\<And>m r. rec m = Inr r \<Longrightarrow> good r m"
  shows "good result a \<Longrightarrow> split_loop rec sep n pieces current cl result = Inr r
    \<Longrightarrow> good r (a @ join sep (current @ pieces))"
proof (induction pieces arbitrary: current cl result a)
  case Nil
  show ?case
  proof (cases "current = []")
    case True
    with Nil show ?thesis by simp
  next
    case False
    with Nil.prems(2) have "flush rec sep n current result = Inr r" by simp
    from flush_good [OF rec Nil.prems(1) this] show ?thesis by simp
  qed
next
  case (Cons piece pieces)
  let ?pl = "int (length piece) + int (length sep)"
  show ?case
  proof (cases "cl + ?pl > n \<and> current \<noteq> []")
    case True
    with Cons.prems(2) obtain result' where
      fl: "flush rec sep n current result = Inr result'" and
      lp: "split_loop rec sep n pieces [piece] (int (length piece)) result' = Inr r"
      by (auto simp: Let_def split: sum.splits)
    from flush_good [OF rec Cons.prems(1) fl] have "good result' (a @ join sep current)" .
    then have "good result' ((a @ join sep current) @ sep)" by (rule good_extend)
    from Cons.IH [OF this lp]
    have "good r (((a @ join sep current) @ sep) @ join sep ([piece] @ pieces))" .
    moreover have "join sep (current @ piece # pieces) = join sep current @ sep @ join sep (piece # pieces)"
      using True join_append [of current "piece # pieces" sep] by simp
    ultimately show ?thesis by simp
  next
    case False
    with Cons.prems(2) have
      lp: "split_loop rec sep n pieces (current @ [piece]) (cl + ?pl) result = Inr r"
      by (auto simp: Let_def)
    from Cons.IH [OF Cons.prems(1) lp] show ?thesis by simp
  qed
qed

lemma split_recursive_good: "split_recursive s n seps = Inr r \<Longrightarrow> good r s"
proof (induction s n seps arbitrary: r rule: split_recursive.induct)
  case (1 s n seps)
  let ?sep = "case seps of [] \<Rightarrow> [] | x # _ \<Rightarrow> x"
  show ?case
  proof (cases "int (length s) \<le> n")
    case True
    with "1.prems" have "r = (if strip s \<noteq> [] then [strip s] else [])" by simp
    then show ?thesis using in_order_strip [of s] by (auto simp: good_def)
  next
    case False
    show ?thesis
    proof (cases "?sep = []")
      case True
      with False "1.prems" have "char_split s n = Inr r" by simp
      then show ?thesis by (rule char_split_good)
    next
      case False': False
      let ?rec = "\<lambda>merged. split_recursive merged n (if length seps > 1 then tl seps else [[]])"
      from False False' "1.prems"
      have lp: "split_loop ?rec ?sep n (split_str s ?sep) [] 0 [] = Inr r" by simp
      have rec: "\<And>m r. ?rec m = Inr r \<Longrightarrow> good r m"
        using "1.IH" [OF False False'] by blast
      have "good [] []" by (simp add: good_def)
      from split_loop_good [of ?rec, OF rec this lp]
      show ?thesis by (simp add: join_split_str)
    qed
  qed
qed

lemma find_at_bounds: "find_at sub t i = Some j \<Longrightarrow> i \<le> j \<and> j + length sub \<le> i + length t"
proof (induction t arbitrary: i)
  case Nil
  then show ?case by (auto split: if_splits)
next
  case (Cons c cs)
  show ?case
  proof (cases "prefix sub (c # cs)")
    case True
    with Cons.prems have "j = i" by simp
    with True show ?thesis by (auto dest: prefix_length_le)
  next
    case False
    with Cons.prems have "find_at sub cs (Suc i) = Some j" by simp
    from Cons.IH [OF this] show ?thesis by simp
  qed
qed

lemma find_at_complete:
  "t = pre @ sub @ post \<Longrightarrow> \<exists>j. find_at sub t i = Some j \<and> j \<le> i + length pre"
proof (induction t arbitrary: i pre)
  case Nil
  then show ?case by simp
next
  case (Cons c cs)
  show ?case
  proof (cases "prefix sub (c # cs)")
    case True
    then show ?thesis by simp
  next
    case False
    have "pre \<noteq> []"
    proof
      assume "pre = []"
      with Cons.prems have "prefix sub (c # cs)" by (simp add: prefix_def)
      with False show False ..
    qed
    then obtain pre' where pre: "pre = c # pre'" and cs: "cs = pre' @ sub @ post"
      using Cons.prems by (cases pre) auto
    from Cons.IH [OF cs, of "Suc i"] obtain j where
      "find_at sub cs (Suc i) = Some j" "j \<le> Suc i + length pre'" by blast
    with False pre show ?thesis by simp
  qed
qed

lemma in_order_drop_le:
  assumes "in_order cs (drop m s)" and "k \<le> m"
  shows "in_order cs (drop k s)"
proof -
  have "drop k s = take (m - k) (drop k s) @ drop (m - k) (drop k s)"
    by (simp only: append_take_drop_id)
  moreover have "drop (m - k) (drop k s) = drop m s" using assms(2) by simp
  ultimately have "drop k s = take (m - k) (drop k s) @ drop m s" by simp
  with in_order_prepend [OF assms(1), of "take (m - k) (drop k s)"] show ?thesis by simp
qed

text \<open>One step of the offset search, for a chunk text that occurs at or after the cursor.\<close>

lemma find_step:
  assumes off: "0 \<le> offset"
    and occ: "drop (nat offset) s = pre @ ct @ post"
    and ne: "ct \<noteq> []"
  shows "\<exists>j. str_find s ct offset = int j \<and> nat offset \<le> j \<and> j \<le> nat offset + length pre
           \<and> j + length ct \<le> length s"
proof -
  from occ ne have lt: "nat offset < length s"
    by (metis append_is_Nil_conv drop_eq_Nil not_le_imp_less)
  from find_at_complete [OF occ, of "nat offset"] obtain j where
    j: "find_at ct (drop (nat offset) s) (nat offset) = Some j" "j \<le> nat offset + length pre"
    by blast
  from find_at_bounds [OF j(1)] lt have "nat offset \<le> j" "j + length ct \<le> length s" by auto
  moreover from off lt j(1) have "str_find s ct offset = int j"
    by (simp add: str_find_def)
  ultimately show ?thesis using j(2) by blast
qed

lemma chunk_loop_offsets:
  assumes ov: "0 \<le> chunk_overlap"
  shows "0 \<le> offset \<Longrightarrow> in_order raw (drop (nat offset) s) \<Longrightarrow> [] \<notin> set raw
    \<Longrightarrow> c \<in> set (chunk_loop ids did s chunk_overlap md i offset raw)
    \<Longrightarrow> 0 \<le> start_char c \<and> start_char c < end_char c \<and> end_char c \<le> int (length s)"
proof (induction raw arbitrary: i offset)
  case Nil
  then show ?case by simp
next
  case (Cons ct rest)
  from Cons.prems(2) obtain pre post where
    occ: "drop (nat offset) s = pre @ ct @ post" and rest: "in_order rest post" by auto
  from Cons.prems(3) have ne: "ct \<noteq> []" and ne': "[] \<notin> set rest" by auto
  from find_step [OF Cons.prems(1) occ ne] obtain j where
    j: "str_find s ct offset = int j" "nat offset \<le> j" "j \<le> nat offset + length pre"
       "j + length ct \<le> length s" by blast
  let ?start = "int j" and ?end = "int j + int (length ct)"
  let ?off' = "max (?start + 1) (?end - chunk_overlap)"
  have loop: "chunk_loop ids did s chunk_overlap md i offset (ct # rest) =
      \<lparr>chunk_id = ids i, chunk_doc_id = did, chunk_text = ct, chunk_index = int i,
        start_char = ?start, end_char = ?end, chunk_metadata = md\<rparr>
      # chunk_loop ids did s chunk_overlap md (Suc i) ?off' rest"
    using j(1) by (simp add: Let_def)
  from ne have len: "0 < length ct" by simp
  have off'0: "0 \<le> ?off'" by simp
  have "?off' \<le> ?end" using ov len by linarith
  then have le: "nat ?off' \<le> nat offset + length pre + length ct" using j(3) by linarith
  have "post = drop (length pre + length ct) (drop (nat offset) s)" using occ
    by (metis append.assoc append_eq_conv_conj length_append)
  then have "post = drop (nat offset + length pre + length ct) s" by (simp add: add.commute add.left_commute)
  with rest have "in_order rest (drop (nat offset + length pre + length ct) s)" by simp
  from in_order_drop_le [OF this le] have io: "in_order rest (drop (nat ?off') s)" .
  from Cons.prems(4) loop consider
    "c = \<lparr>chunk_id = ids i, chunk_doc_id = did, chunk_text = ct, chunk_index = int i,
        start_char = ?start, end_char = ?end, chunk_metadata = md\<rparr>"
    | "c \<in> set (chunk_loop ids did s chunk_overlap md (Suc i) ?off' rest)" by auto
  then show ?case
  proof cases
    case 1
    with len j(4) show ?thesis by simp
  next
    case 2
    from Cons.IH [OF off'0 io ne' 2] show ?thesis .
  qed
qed

lemma str_find_range: "str_find s sub start = - 1 \<or> 0 \<le> str_find s sub start"
  by (simp add: str_find_def Let_def split: option.splits)

text \<open>Whatever the overlap, a chunk starts at or after 0 and is not empty.\<close>

lemma chunk_loop_spans:
  "0 \<le> offset \<Longrightarrow> [] \<notin> set raw
    \<Longrightarrow> c \<in> set (chunk_loop ids did s ov md i offset raw)
    \<Longrightarrow> 0 \<le> start_char c \<and> start_char c < end_char c"
proof (induction raw arbitrary: i offset)
  case Nil
  then show ?case by simp
next
  case (Cons ct rest)
  define start where "start = (if str_find s ct offset = - 1 then offset else str_find s ct offset)"
  have st: "0 \<le> start"
    using Cons.prems(1) str_find_range [of s ct offset] by (auto simp: start_def)
  from Cons.prems(2) have len: "0 < length ct" and ne: "[] \<notin> set rest" by auto
  have loop: "chunk_loop ids did s ov md i offset (ct # rest) =
      \<lparr>chunk_id = ids i, chunk_doc_id = did, chunk_text = ct, chunk_index = int i,
        start_char = start, end_char = start + int (length ct), chunk_metadata = md\<rparr>
      # chunk_loop ids did s ov md (Suc i)
          (max (start + 1) (start + int (length ct) - ov)) rest"
    by (simp add: Let_def start_def)
  have off: "0 \<le> max (start + 1) (start + int (length ct) - ov)" using st by simp
  from Cons.prems(3) loop consider
    "c = \<lparr>chunk_id = ids i, chunk_doc_id = did, chunk_text = ct, chunk_index = int i,
        start_char = start, end_char = start + int (length ct), chunk_metadata = md\<rparr>"
    | "c \<in> set (chunk_loop ids did s ov md (Suc i)
          (max (start + 1) (start + int (length ct) - ov)) rest)" by auto
  then show ?case
  proof cases
    case 1
    with st len show ?thesis by simp
  next
    case 2
    from Cons.IH [OF off ne 2] show ?thesis .
  qed
qed

lemma chunk_loop_length: "length (chunk_loop ids did s ov md i offset raw) = length raw"
  by (induction raw arbitrary: i offset) (simp_all add: Let_def)

lemma chunk_loop_index:
  "map chunk_index (chunk_loop ids did s ov md i offset raw) = map int [i..<i + length raw]"
proof (induction raw arbitrary: i offset)
  case Nil
  then show ?case by simp
next
  case (Cons ct rest)
  have "[i..<i + length (ct # rest)] = i # [Suc i..<Suc i + length rest]"
    by (simp add: upt_rec)
  with Cons.IH show ?case by (simp add: Let_def)
qed


text \<open>
  The chunker returns for every chunk size but 0 (where \<open>range\<close> raises
  ValueError once the character-level split is reached).
\<close>

lemma flush_returns:
  assumes "\<And>m. \<exists>r. rec m = Inr r"
  shows "\<exists>r. flush rec sep n current result = Inr r"
proof -
  obtain r where "rec (strip (join sep current)) = Inr r" using assms by blast
  then show ?thesis by (simp add: flush_def Let_def)
qed

lemma split_loop_returns:
  assumes "\<And>m. \<exists>r. rec m = Inr r"
  shows "\<exists>r. split_loop rec sep n pieces current cl result = Inr r"
proof (induction pieces arbitrary: current cl result)
  case Nil
  then show ?case using flush_returns [of rec sep n current result, OF assms] by simp
next
  case (Cons piece pieces)
  obtain r where "flush rec sep n current result = Inr r"
    using flush_returns [of rec sep n current result, OF assms] by blast
  with Cons show ?case by (simp add: Let_def)
qed

lemma split_recursive_returns: "n \<noteq> 0 \<Longrightarrow> \<exists>r. split_recursive s n seps = Inr r"
proof (induction s n seps rule: split_recursive.induct)
  case (1 s n seps)
  show ?case
  proof (cases "int (length s) \<le> n \<or> (case seps of [] \<Rightarrow> [] | x # _ \<Rightarrow> x) = []")
    case True
    with "1.prems" show ?thesis by (auto simp: char_split_def)
  next
    case False
    then have a: "\<not> int (length s) \<le> n" and b: "(case seps of [] \<Rightarrow> [] | x # _ \<Rightarrow> x) \<noteq> []"
      by simp_all
    have "\<And>m. \<exists>r. split_recursive m n (if 1 < length seps then tl seps else [[]]) = Inr r"
      using "1.IH" [OF a b "1.prems"] .
    from split_loop_returns [of "\<lambda>m. split_recursive m n (if 1 < length seps then tl seps else [[]])", OF this]
    show ?thesis using a b by (subst split_recursive.simps) simp
  qed
qed

lemma chunk_document_returns:
  "n \<noteq> 0 \<Longrightarrow> \<exists>cs. chunk_document ids did s n ov md = Inr cs"
  using split_recursive_returns [of n s SEPARATORS]
  by (auto simp: chunk_document_def simp del: split_recursive.simps)

section \<open>Claims about the chunker\<close>

text \<open>
  C1.  The claim is that every chunk has \<open>0 \<le> start_char < end_char \<le> len(text)\<close>,
  whatever the input.  \<open>chunk_overlap\<close> is an unchecked integer, and with a
  negative one the cursor \<open>max(start + 1, end - chunk_overlap)\<close> jumps past the
  next piece: \<open>text.find\<close> returns -1 and the fallback \<open>start = offset\<close> puts
  the chunk beyond the text.  Here \<open>ab cd\<close> (5 characters) is split with
  \<open>chunk_size = 2\<close> and \<open>chunk_overlap = -5\<close>: the second chunk is \<open>[7, 9)\<close>.
\<close>

theorem chunk_document_negative_overlap:
  "chunk_document (\<lambda>i. []) ''d'' ''ab cd'' 2 (- 5) None =
     Inr [\<lparr>chunk_id = [], chunk_doc_id = ''d'', chunk_text = ''ab'', chunk_index = 0,
            start_char = 0, end_char = 2, chunk_metadata = []\<rparr>,
          \<lparr>chunk_id = [], chunk_doc_id = ''d'', chunk_text = ''cd'', chunk_index = 1,
            start_char = 7, end_char = 9, chunk_metadata = []\<rparr>]
   \<and> int (length ''ab cd'') < 9"
proof -
  have "chunk_document (\<lambda>i. []) ''d'' ''ab cd'' 2 (- 5) None =
     Inr [\<lparr>chunk_id = [], chunk_doc_id = ''d'', chunk_text = ''ab'', chunk_index = 0,
            start_char = 0, end_char = 2, chunk_metadata = []\<rparr>,
          \<lparr>chunk_id = [], chunk_doc_id = ''d'', chunk_text = ''cd'', chunk_index = 1,
            start_char = 7, end_char = 9, chunk_metadata = []\<rparr>]"
    by code_simp
  then show ?thesis by simp
qed

text \<open>
  C1, as the program does it.  For every text, every chunk size and every overlap,
  every chunk that \<open>chunk_document\<close> returns has \<open>0 \<le> start_char < end_char\<close>,
  and the \<open>index\<close> fields of the returned chunks are \<open>0, 1, ..., n - 1\<close> in the
  order of the list; when \<open>chunk_overlap\<close> is not negative, every chunk also has
  \<open>end_char \<le> len(text)\<close>.
\<close>

theorem chunk_document_offsets_and_indices:
  assumes "chunk_document ids did s csize chunk_overlap metadata = Inr cs"
  shows "(\<forall>c \<in> set cs. 0 \<le> start_char c \<and> start_char c < end_char c
            \<and> (0 \<le> chunk_overlap \<longrightarrow> end_char c \<le> int (length s)))
         \<and> map chunk_index cs = map int [0..<length cs]"
proof (cases "strip s = []")
  case True
  with assms show ?thesis by (simp add: chunk_document_def)
next
  case False
  with assms obtain raw where raw: "split_recursive s csize SEPARATORS = Inr raw"
    and cs: "cs = chunk_loop ids did s chunk_overlap
                   (case metadata of None \<Rightarrow> [] | Some m \<Rightarrow> m) 0 0 raw"
    by (auto simp: chunk_document_def split: sum.splits simp del: split_recursive.simps)
  from split_recursive_good [OF raw] have g: "in_order raw (drop (nat 0) s)" "[] \<notin> set raw"
    by (simp_all add: good_def)
  have "\<forall>c \<in> set cs. 0 \<le> start_char c \<and> start_char c < end_char c"
    using chunk_loop_spans [OF _ g(2)] unfolding cs by blast
  moreover have "0 \<le> chunk_overlap \<longrightarrow> (\<forall>c \<in> set cs. end_char c \<le> int (length s))"
    using chunk_loop_offsets [OF _ _ g] unfolding cs by blast
  moreover have "map chunk_index cs = map int [0..<length cs]"
    unfolding cs using chunk_loop_index [of ids did s chunk_overlap _ 0 0 raw]
    by (simp add: chunk_loop_length)
  ultimately show ?thesis by blast
qed

theorem chunk_document_offsets_and_indices_witness:
  "chunk_document (\<lambda>i. []) ''d'' ''ab cd'' 2 5 None =
      Inr [\<lparr>chunk_id = [], chunk_doc_id = ''d'', chunk_text = ''ab'', chunk_index = 0,
             start_char = 0, end_char = 2, chunk_metadata = []\<rparr>,
           \<lparr>chunk_id = [], chunk_doc_id = ''d'', chunk_text = ''cd'', chunk_index = 1,
             start_char = 3, end_char = 5, chunk_metadata = []\<rparr>]
   \<and> (0::int) \<le> 5
   \<and> (0::int) \<le> 0 \<and> (0::int) < 2 \<and> (2::int) \<le> int (length ''ab cd'')
   \<and> (0::int) \<le> 3 \<and> (3::int) < 5 \<and> (5::int) \<le> int (length ''ab cd'')
   \<and> [0, 1] = map int [0..<2]"
proof -
  have ev: "chunk_document (\<lambda>i. []) ''d'' ''ab cd'' 2 5 None =
      Inr [\<lparr>chunk_id = [], chunk_doc_id = ''d'', chunk_text = ''ab'', chunk_index = 0,
             start_char = 0, end_char = 2, chunk_metadata = []\<rparr>,
           \<lparr>chunk_id = [], chunk_doc_id = ''d'', chunk_text = ''cd'', chunk_index = 1,
             start_char = 3, end_char = 5, chunk_metadata = []\<rparr>]"
    by code_simp
  from chunk_document_offsets_and_indices [OF ev] ev show ?thesis
    by (simp add: upt_rec)
qed

text \<open>
  C4.  The claim is that with a positive overlap consecutive chunks overlap.  The
  program does not do that: the raw chunks are disjoint pieces of the text, and
  \<open>chunk_overlap\<close> only moves the cursor from which the next piece is searched.
  Here the text \<open>First paragraph.\n\nSecond paragraph.\<close> (35 characters) is split
  with \<open>chunk_size = 20\<close> and \<open>chunk_overlap = 5\<close>: the first chunk is
  \<open>[0, 16)\<close> and the second starts at 18, after the first has ended.
\<close>

theorem chunk_document_no_overlap:
  "chunk_document (\<lambda>i. []) ''d''
     (''First paragraph.'' @ [CHR 0x0A, CHR 0x0A] @ ''Second paragraph.'') 20 5 None =
   Inr [\<lparr>chunk_id = [], chunk_doc_id = ''d'', chunk_text = ''First paragraph.'',
          chunk_index = 0, start_char = 0, end_char = 16, chunk_metadata = []\<rparr>,
        \<lparr>chunk_id = [], chunk_doc_id = ''d'', chunk_text = ''Second paragraph.'',
          chunk_index = 1, start_char = 18, end_char = 35, chunk_metadata = []\<rparr>]"
  by code_simp

section \<open>The graph client: the retry loop and the split into episodes\<close>

lemma retry_trace_Suc: "0 < n \<Longrightarrow> retry_trace (Suc n) ev d = ev # Sleep d # retry_trace n ev d"
  by (cases n) auto

lemma attempt_loop_rate_limited_from:
  assumes rl: "\<And>tr. add_episode b tr name block desc = Raised RateLimitError"
  shows "attempt_loop b m d name block desc [k..m] trace =
    ((False, 0, 0), trace @ retry_trace (nat (m - k + 1)) (AddEpisode name block desc) d)"
proof (induction "nat (m - k + 1)" arbitrary: k trace)
  case 0
  then have "[k..m] = []" by simp
  with 0 show ?case by simp
next
  case (Suc n)
  then have le: "k \<le> m" and n: "n = nat (m - (k + 1) + 1)" by linarith+
  have up: "[k..m] = k # [k + 1..m]" using le by (rule upto_rec1)
  show ?case
  proof (cases "k < m")
    case True
    then have pos: "0 < nat (m - (k + 1) + 1)" by simp
    have "nat (m - k + 1) = Suc (nat (m - (k + 1) + 1))" using le by simp
    then have "retry_trace (nat (m - k + 1)) (AddEpisode name block desc) d =
        AddEpisode name block desc # Sleep d
          # retry_trace (nat (m - (k + 1) + 1)) (AddEpisode name block desc) d"
      using retry_trace_Suc [OF pos] by simp
    with Suc.hyps(1) [OF n] True show ?thesis
      unfolding up by (simp add: rl)
  next
    case False
    with le have km: "k = m" by simp
    then have "[k + 1..m] = []" by simp
    with km show ?thesis unfolding up by (simp add: rl)
  qed
qed

lemma retry_trace_calls:
  "length (filter is_call (retry_trace n (AddEpisode name block desc) d)) = n"
  by (induction n "AddEpisode name block desc" d rule: retry_trace.induct) auto

lemma retry_trace_sleeps:
  "length (filter (\<lambda>e. \<not> is_call e) (retry_trace n (AddEpisode name block desc) d)) = n - 1"
  by (induction n "AddEpisode name block desc" d rule: retry_trace.induct) auto

lemma block_loop_length: "0 < n \<Longrightarrow> length (block_loop i n s) = (length s - i + n - 1) div n"
proof (induction i n s rule: block_loop.induct)
  case (1 i n s)
  show ?case
  proof (cases "length s \<le> i")
    case True
    with "1.prems" show ?thesis by (subst block_loop.simps) simp
  next
    case False
    then have c: "\<not> (n = 0 \<or> length s \<le> i)" using "1.prems" by simp
    from "1.IH" [OF c "1.prems"]
    have ih: "length (block_loop (i + n) n s) = (length s - (i + n) + n - 1) div n" .
    have "Suc ((length s - (i + n) + n - 1) div n) = (length s - i + n - 1) div n"
    proof (cases "n \<le> length s - i")
      case True
      define r where "r = length s - i - 1"
      have a: "length s - (i + n) + n - 1 = r" using True by (simp add: r_def)
      have b: "length s - i + n - 1 = r + n" using "1.prems" False by (simp add: r_def)
      have "(r + n) div n = Suc (r div n)" using "1.prems" by simp
      with a b show ?thesis by simp
    next
      case F: False
      define r where "r = length s - i - 1"
      have a: "length s - (i + n) + n - 1 = n - 1" using F by simp
      have b: "(n - 1) div n = 0" using "1.prems" by simp
      have c: "length s - i + n - 1 = r + n" using "1.prems" False by (simp add: r_def)
      have "r < n" using F False by (simp add: r_def)
      then have "(r + n) div n = 1" using "1.prems" by simp
      with a b c show ?thesis by simp
    qed
    with ih c show ?thesis by (subst block_loop.simps) simp
  qed
qed

lemma block_loop_concat: "0 < n \<Longrightarrow> concat (block_loop i n s) = drop i s"
proof (induction i n s rule: block_loop.induct)
  case (1 i n s)
  show ?case
  proof (cases "length s \<le> i")
    case True
    then show ?thesis by (subst block_loop.simps) simp
  next
    case False
    then have c: "\<not> (n = 0 \<or> length s \<le> i)" using "1.prems" by simp
    from "1.IH" [OF c "1.prems"] have ih: "concat (block_loop (i + n) n s) = drop (i + n) s" .
    have "take n (drop i s) @ drop (i + n) s = drop i s"
      by (metis add.commute append_take_drop_id drop_drop)
    with ih c show ?thesis by (subst block_loop.simps) simp
  qed
qed

lemma neg_div_ceil:
  assumes "0 < (e::int)"
  shows "- (- l div e) = (l + e - 1) div e"
proof -
  define q where "q = (l + e - 1) div e"
  define r where "r = (l + e - 1) mod e"
  have r: "0 \<le> r" "r < e" using assms by (simp_all add: r_def)
  have "l + e - 1 = e * q + r" by (simp add: q_def r_def)
  then have "- l = e * (- q) + (e - 1 - r)" by (simp add: algebra_simps)
  moreover have "0 \<le> e - 1 - r" "e - 1 - r < e" using r by simp_all
  ultimately have "- l div e = - q" by (rule int_div_pos_eq)
  then show ?thesis by (simp add: q_def)
qed

lemma ceil_div: "0 < (e::int) \<Longrightarrow> \<lceil>real_of_int l / real_of_int e\<rceil> = (l + e - 1) div e"
  using neg_div_ceil [of e l] by (simp add: ceiling_divide_eq_div)


lemma episode_loop_attribute_error:
  "episode_loop g b ttl path n 0 (block # rest) acc trace = (Inl AttributeError, trace)"
  by (simp add: graph_getattr_def Let_def)

section \<open>Claims about the graph client\<close>

text \<open>
  C5.  The claim describes the retry loop: \<open>max_retries\<close> attempts with a sleep
  between them when the backend is rate-limited, then the episode counted as
  failed and the next episode processed.  \<open>add_document\<close> never gets there: it
  reads \<open>cfg.graph.max_episode_retries\<close> before the first attempt, and
  \<open>GraphConfig\<close> has no such field.  Against a backend that is rate-limited on
  every call, \<open>add_document\<close> raises AttributeError without a single call of
  \<open>add_episode\<close>.
\<close>

theorem add_document_rate_limited_raises:
  "add_document graph_config0 graph_client0 ''T'' ''/d/a.txt'' ''ab cd'' [] =
     (Inl AttributeError, [])"
  by code_simp

text \<open>
  C6.  The text \<open>abcdefg\<close> with \<open>episode_size = 3\<close> is split into the three
  blocks the claim counts, but \<open>add_document\<close> returns no summary: it raises
  AttributeError at the first episode (the same missing fields as in C5), also
  when the backend works.
\<close>

theorem add_document_returns_no_summary:
  "split_blocks ''abcdefg'' 3 = Inr [''abc'', ''def'', ''g'']
   \<and> add_document (graph_config0\<lparr>episode_size := 3\<rparr>) \<lparr>graphiti_of = Some graphiti1\<rparr>
        ''T'' ''/d/a.txt'' ''abcdefg'' [] = (Inl AttributeError, [])"
proof -
  have sp: "split_blocks ''abcdefg'' 3 = Inr [''abc'', ''def'', ''g'']"
    by code_simp
  have ad: "add_document (graph_config0\<lparr>episode_size := 3\<rparr>) \<lparr>graphiti_of = Some graphiti1\<rparr>
        ''T'' ''/d/a.txt'' ''abcdefg'' [] = (Inl AttributeError, [])"
    by code_simp
  from sp ad show ?thesis ..
qed

section \<open>Further properties of the graph client\<close>

text \<open>
  \<open>add_document\<close> raises AttributeError for every document, whenever the client
  is initialized and the text is split into at least one block (which is so for
  every positive \<open>episode_size\<close>); nothing is sent to the backend.
\<close>

theorem add_document_attribute_error:
  assumes "graphiti_of gc = Some b"
    and "split_blocks s (episode_size g) = Inr (block # rest)"
  shows "add_document g gc ttl path s trace = (Inl AttributeError, trace)"
  using assms by (simp add: add_document_def episode_loop_attribute_error del: episode_loop.simps)

theorem add_document_attribute_error_witness:
  "graphiti_of graph_client0 = Some graphiti0
   \<and> split_blocks ''ab cd'' (episode_size graph_config0) = Inr (''ab cd'' # [])
   \<and> add_document graph_config0 graph_client0 ''T'' ''/d/a.txt'' ''ab cd'' [Sleep 1] =
       (Inl AttributeError, [Sleep 1])"
proof -
  have a: "graphiti_of graph_client0 = Some graphiti0" by (simp add: graph_client0_def)
  have b: "split_blocks ''ab cd'' (episode_size graph_config0) = Inr (''ab cd'' # [])"
    by (simp add: split_blocks_def graph_config0_def)
  from add_document_attribute_error [OF a b] a b show ?thesis by simp
qed

text \<open>
  The retry loop itself, given a number of attempts \<open>m\<close> and a delay \<open>d\<close>: when
  every call for the episode raises a rate-limit error, the loop makes \<open>m\<close> calls
  (none when \<open>m \<le> 0\<close>) with a sleep of \<open>d\<close> between consecutive calls, and ends
  without success.
\<close>

theorem attempt_loop_rate_limited:
  assumes "\<And>tr. add_episode b tr name block desc = Raised RateLimitError"
  shows "attempt_loop b m d name block desc [1..m] trace =
           ((False, 0, 0), trace @ retry_trace (nat m) (AddEpisode name block desc) d)
         \<and> length (filter is_call (retry_trace (nat m) (AddEpisode name block desc) d)) = nat m
         \<and> length (filter (\<lambda>e. \<not> is_call e)
              (retry_trace (nat m) (AddEpisode name block desc) d)) = nat m - 1"
  using attempt_loop_rate_limited_from [of b name block desc m d 1 trace, OF assms]
  by (simp add: retry_trace_calls retry_trace_sleeps)

theorem attempt_loop_rate_limited_witness:
  "add_episode graphiti0 [] ''n'' ''b'' ''d'' = Raised RateLimitError
   \<and> attempt_loop graphiti0 3 60 ''n'' ''b'' ''d'' [1..3] [] =
       ((False, 0, 0),
        [AddEpisode ''n'' ''b'' ''d'', Sleep 60, AddEpisode ''n'' ''b'' ''d'', Sleep 60,
         AddEpisode ''n'' ''b'' ''d''])"
proof -
  have rl: "\<And>tr. add_episode graphiti0 tr ''n'' ''b'' ''d'' = Raised RateLimitError"
    by (simp add: graphiti0_def)
  have "retry_trace 3 (AddEpisode ''n'' ''b'' ''d'') 60 =
      [AddEpisode ''n'' ''b'' ''d'', Sleep 60, AddEpisode ''n'' ''b'' ''d'', Sleep 60,
       AddEpisode ''n'' ''b'' ''d'']"
    by (simp add: numeral_3_eq_3)
  with attempt_loop_rate_limited [of graphiti0 "''n''" "''b''" "''d''" 3 60 "[]", OF rl] rl
  show ?thesis by simp
qed

text \<open>
  A failure that is not a rate limit ends the loop at once: one call, no sleep,
  no success.
\<close>

theorem attempt_loop_other_error:
  assumes "add_episode b trace name block desc = Raised e"
    and "e \<noteq> RateLimitError"
    and "1 \<le> m"
  shows "attempt_loop b m d name block desc [1..m] trace =
           ((False, 0, 0), trace @ [AddEpisode name block desc])"
proof -
  from assms(3) have "[1..m] = 1 # [1 + 1..m]" by (rule upto_rec1)
  with assms(1,2) show ?thesis by simp
qed

theorem attempt_loop_other_error_witness:
  "add_episode (graphiti0\<lparr>add_episode := (\<lambda>tr n b d. Raised (OtherException 7))\<rparr>) []
       ''n'' ''b'' ''d'' = Raised (OtherException 7)
   \<and> OtherException 7 \<noteq> RateLimitError
   \<and> (1::int) \<le> 3
   \<and> attempt_loop (graphiti0\<lparr>add_episode := (\<lambda>tr n b d. Raised (OtherException 7))\<rparr>) 3 60
        ''n'' ''b'' ''d'' [1..3] [] = ((False, 0, 0), [AddEpisode ''n'' ''b'' ''d''])"
proof -
  have a: "add_episode (graphiti0\<lparr>add_episode := (\<lambda>tr n b d. Raised (OtherException 7))\<rparr>) []
       ''n'' ''b'' ''d'' = Raised (OtherException 7)" by simp
  have b: "OtherException 7 \<noteq> RateLimitError" by simp
  have c: "(1::int) \<le> 3" by simp
  from attempt_loop_other_error [OF a b c, of 60] a b c show ?thesis by simp
qed

text \<open>
  The split into episodes, for a positive \<open>episode_size\<close>: the blocks are
  contiguous and non-overlapping (their concatenation is the text), and there are
  \<open>ceil(L / E)\<close> of them when \<open>L > E\<close> and one otherwise.
\<close>

theorem split_blocks_count:
  assumes "0 < e"
  shows "\<exists>blocks. split_blocks s e = Inr blocks
           \<and> concat blocks = s
           \<and> int (length blocks) =
               (if int (length s) > e then \<lceil>real (length s) / real_of_int e\<rceil> else 1)"
proof (cases "int (length s) \<le> e")
  case True
  then show ?thesis by (simp add: split_blocks_def)
next
  case False
  with assms have sb: "split_blocks s e = Inr (block_loop 0 (nat e) s)"
    by (simp add: split_blocks_def)
  from assms have pos: "0 < nat e" by simp
  have "int (length (block_loop 0 (nat e) s)) = int ((length s + nat e - 1) div nat e)"
    using block_loop_length [OF pos, of 0 s] by simp
  also have "\<dots> = (int (length s) + e - 1) div e"
    using assms by (simp add: zdiv_int of_nat_diff)
  also have "\<dots> = \<lceil>real_of_int (int (length s)) / real_of_int e\<rceil>"
    using ceil_div [OF assms, of "int (length s)"] by simp
  finally have "int (length (block_loop 0 (nat e) s)) = \<lceil>real (length s) / real_of_int e\<rceil>"
    by simp
  with sb False block_loop_concat [OF pos, of 0 s] show ?thesis by simp
qed

theorem split_blocks_count_witness:
  "(0::int) < 3
   \<and> split_blocks ''abcdefg'' 3 = Inr [''abc'', ''def'', ''g'']
   \<and> concat [''abc'', ''def'', ''g''] = ''abcdefg''
   \<and> \<lceil>real (length ''abcdefg'') / real_of_int 3\<rceil> = 3"
proof -
  have h: "(0::int) < 3" by simp
  have ev: "split_blocks ''abcdefg'' 3 = Inr [''abc'', ''def'', ''g'']" by code_simp
  from split_blocks_count [OF h, of "''abcdefg''"] ev h show ?thesis by simp
qed

section \<open>The ingestion pipeline: the steps of a run\<close>

lemma ingest_file_graph:
  "ingest_file w cfg path force gc st =
     (case ingest_file w cfg path force None st of
        (Inr (Some doc), st2) \<Rightarrow> (Inr (Some doc), graph_extraction cfg gc doc st2)
      | r \<Rightarrow> r)"
proof (cases "get_normalizer w path")
  case None
  then show ?thesis by (simp add: ingest_file_def)
next
  case nz: (Some nz)
  show ?thesis
  proof (cases "check_unchanged w path force st")
    case (Inl e)
    with nz show ?thesis by (simp add: ingest_file_def)
  next
    case (Inr skip)
    show ?thesis
    proof (cases skip)
      case True
      with nz Inr show ?thesis by (simp add: ingest_file_def)
    next
      case False
      with Inr have cu: "check_unchanged w path force st = Inr False" by simp
      show ?thesis
      proof (cases "normalize w nz path (uuid_count st)")
        case (Inl e)
        with nz cu show ?thesis by (simp add: ingest_file_def)
      next
        case n: (Inr doc0)
        obtain doc st1 where
          r: "replace_existing path doc0 (st\<lparr>uuid_count := Suc (uuid_count st)\<rparr>) = (doc, st1)"
          by (cases "replace_existing path doc0 (st\<lparr>uuid_count := Suc (uuid_count st)\<rparr>)")
        show ?thesis
        proof (cases "chunk_document (\<lambda>i. uuid4 w (uuid_count st1 + i)) (doc_id doc)
            (doc_text doc) (cfg_chunk_size cfg) (cfg_chunk_overlap cfg)
            (Some [(''source_path'', source_path doc),
                   (''doc_type'', doc_type_value (doc_type doc))])")
          case (Inl e)
          with nz cu n r show ?thesis by (simp add: ingest_file_def)
        next
          case c: (Inr cs)
          show ?thesis
          proof (cases "embed_and_store w cs
              (st1\<lparr>docstore := ds_upsert_chunks (upsert_document (docstore st1) doc) cs,
                   uuid_count := uuid_count st1 + length cs\<rparr>)")
            case (Inl e)
            with nz cu n r c show ?thesis by (simp add: ingest_file_def)
          next
            case (Inr st2)
            with nz cu n r c show ?thesis
              by (simp add: ingest_file_def graph_extraction_def)
          qed
        qed
      qed
    qed
  qed
qed

lemma graph_extraction_stores:
  "docstore (graph_extraction cfg gc doc st) = docstore st
   \<and> vectorstore (graph_extraction cfg gc doc st) = vectorstore st
   \<and> uuid_count (graph_extraction cfg gc doc st) = uuid_count st"
  by (simp add: graph_extraction_def split: option.splits sum.splits prod.splits)

lemma find_snoc:
  "\<forall>x \<in> set xs. \<not> P x \<Longrightarrow> P d \<Longrightarrow> List.find P (xs @ [d]) = Some d"
  by (induction xs) auto

lemma upsert_document_by_path:
  "get_document_by_path (upsert_document ds d) (source_path d) = Some d"
  by (simp add: get_document_by_path_def upsert_document_def find_snoc)

lemma compute_hash_fields:
  "source_path (compute_hash w d) = source_path d
   \<and> doc_id (compute_hash w d) = doc_id d
   \<and> doc_text (compute_hash w d) = doc_text d
   \<and> (file_hash w (source_path d) = Some h \<longrightarrow> content_hash (compute_hash w d) = h)"
  by (simp add: compute_hash_def split: option.splits)

lemma normalize_fields:
  assumes "normalize w nz path n = Inr d"
  shows "source_path d = path" and "doc_id d = uuid4 w n"
    and "file_hash w path = Some h \<Longrightarrow> content_hash d = h"
  using assms compute_hash_fields [of w _ h]
  by (auto simp: normalize_def split: sum.splits prod.splits)

lemma replace_existing_fields:
  assumes "replace_existing path d st = (d', st')"
  shows "source_path d' = source_path d" and "content_hash d' = content_hash d"
    and "doc_text d' = doc_text d" and "uuid_count st' = uuid_count st"
    and "graph_trace st' = graph_trace st"
  using assms by (auto simp: replace_existing_def split: option.splits)

lemma embed_and_store_docstore:
  "embed_and_store w cs st = Inr st' \<Longrightarrow> docstore st' = docstore st"
  by (auto simp: embed_and_store_def split: option.splits if_splits sum.splits)

text \<open>What a successful run of the pipeline without a graph client went through.\<close>

lemma ingest_file_SomeE:
  assumes "ingest_file w cfg path force None st = (Inr (Some doc), st')"
  obtains nz doc0 st1 cs where
    "get_normalizer w path = Some nz"
    "normalize w nz path (uuid_count st) = Inr doc0"
    "replace_existing path doc0 (st\<lparr>uuid_count := Suc (uuid_count st)\<rparr>) = (doc, st1)"
    "chunk_document (\<lambda>i. uuid4 w (uuid_count st1 + i)) (doc_id doc) (doc_text doc)
        (cfg_chunk_size cfg) (cfg_chunk_overlap cfg)
        (Some [(''source_path'', source_path doc), (''doc_type'', doc_type_value (doc_type doc))])
       = Inr cs"
    "embed_and_store w cs
       (st1\<lparr>docstore := ds_upsert_chunks (upsert_document (docstore st1) doc) cs,
            uuid_count := uuid_count st1 + length cs\<rparr>) = Inr st'"
  using assms
  by (auto simp: ingest_file_def graph_extraction_def
      split: option.splits sum.splits bool.splits prod.splits)


lemma fold_upsert:
  "distinct (map k cs) \<Longrightarrow>
   fold (\<lambda>c rows. filter (\<lambda>r. k r \<noteq> k c) rows @ [c]) cs rows =
     filter (\<lambda>r. k r \<notin> k ` set cs) rows @ cs"
proof (induction cs arbitrary: rows)
  case Nil
  then show ?case by simp
next
  case (Cons c cs)
  then have d: "distinct (map k cs)" and nc: "k c \<notin> k ` set cs" by auto
  have "filter (\<lambda>r. k r \<notin> k ` set cs) (filter (\<lambda>r. k r \<noteq> k c) rows) =
        filter (\<lambda>r. k r \<notin> k ` set (c # cs)) rows"
    by (induction rows) auto
  with Cons.IH [OF d, of "filter (\<lambda>r. k r \<noteq> k c) rows @ [c]"] nc show ?case by simp
qed

lemma filter_upsert:
  assumes "distinct (map k cs)"
    and "\<forall>r \<in> set rows. \<not> P r"
    and "\<forall>c \<in> set cs. P c"
  shows "filter P (fold (\<lambda>c rows. filter (\<lambda>r. k r \<noteq> k c) rows @ [c]) cs rows) = cs"
proof -
  have "filter P (filter (\<lambda>r. k r \<notin> k ` set cs) rows) = []"
    using assms(2) by (simp add: filter_empty_conv)
  moreover have "filter P cs = cs" using assms(3) by (simp add: filter_id_conv)
  ultimately show ?thesis by (simp add: fold_upsert [OF assms(1)])
qed

lemma chunk_loop_ids:
  "map chunk_id (chunk_loop ids did s ov md i offset raw) = map ids [i..<i + length raw]"
proof (induction raw arbitrary: i offset)
  case Nil
  then show ?case by simp
next
  case (Cons ct rest)
  have "[i..<i + length (ct # rest)] = i # [Suc i..<Suc i + length rest]"
    by (simp add: upt_rec)
  with Cons.IH show ?case by (simp add: Let_def)
qed

lemma chunk_loop_doc_id:
  "c \<in> set (chunk_loop ids did s ov md i offset raw) \<Longrightarrow> chunk_doc_id c = did"
  by (induction raw arbitrary: i offset) (auto simp: Let_def)

lemma chunk_document_cases:
  assumes "chunk_document ids did s n ov md = Inr cs"
  obtains "cs = []" | raw md' where "cs = chunk_loop ids did s ov md' 0 0 raw"
  using assms
  by (auto simp: chunk_document_def split: if_splits sum.splits simp del: split_recursive.simps)

lemma chunk_document_rows:
  assumes "chunk_document ids did s n ov md = Inr cs"
  shows "map chunk_id cs = map ids [0..<length cs]"
    and "\<forall>c \<in> set cs. chunk_doc_id c = did"
    and "map chunk_index cs = map int [0..<length cs]"
proof -
  from assms show "map chunk_id cs = map ids [0..<length cs]"
    by (rule chunk_document_cases)
      (use chunk_loop_ids [of ids did s ov _ 0 0] in \<open>simp_all add: chunk_loop_length\<close>)
  from assms show "\<forall>c \<in> set cs. chunk_doc_id c = did"
    by (rule chunk_document_cases) (auto dest: chunk_loop_doc_id)
  from assms show "map chunk_index cs = map int [0..<length cs]"
    by (rule chunk_document_cases)
      (use chunk_loop_index [of ids did s ov _ 0 0] in \<open>simp_all add: chunk_loop_length\<close>)
qed

lemma sorted_upt_int: "sorted (map int [0..<n])"
  by (simp add: sorted_map strict_sorted_iff sorted_wrt_iff_nth_less)

lemma replace_existing_Some:
  assumes "get_document_by_path (docstore st) path = Some existing"
    and "replace_existing path d st = (d', st')"
  shows "doc_id d' = doc_id existing"
    and "\<forall>c \<in> set (chunks (docstore st')). chunk_doc_id c \<noteq> doc_id existing"
    and "\<forall>vs. vectorstore st' = Some vs \<longrightarrow> (\<forall>p \<in> set vs. payload_doc_id p \<noteq> doc_id existing)"
  using assms
  by (auto simp: replace_existing_def delete_doc_chunks_def delete_by_doc_id_def
      split: option.splits)

lemma embed_and_store_vectors:
  assumes "embed_and_store w cs st = Inr st'"
    and "vectorstore st = Some vs"
  shows "\<exists>vs'. vectorstore st' = Some vs'
           \<and> (cs = [] \<longrightarrow> vs' = vs)
           \<and> (cs \<noteq> [] \<longrightarrow>
                 (\<exists>embs. embed w (map chunk_text cs) = Inr embs
                    \<and> vs' = vs_upsert_chunks vs cs embs))"
proof (cases "cs = []")
  case True
  with assms have "st' = st" by (simp add: embed_and_store_def)
  with assms(2) True show ?thesis by simp
next
  case False
  with assms show ?thesis
    by (auto simp: embed_and_store_def split: sum.splits)
qed

lemma replace_existing_vectors:
  assumes "get_document_by_path (docstore st) path = Some existing"
    and "replace_existing path d st = (d', st')"
    and "vectorstore st = Some vs"
  shows "vectorstore st' = Some (delete_by_doc_id vs (doc_id existing))"
  using assms by (auto simp: replace_existing_def)

lemma points_of_doc:
  assumes d: "distinct (map chunk_id cs)"
    and c: "\<forall>c \<in> set cs. chunk_doc_id c = did"
    and v: "\<forall>p \<in> set vs. payload_doc_id p \<noteq> did"
  shows "filter (\<lambda>p. payload_doc_id p = did) (vs_upsert_chunks vs cs embs) =
           map (\<lambda>(c, e). point_of c e) (zip cs embs)"
proof -
  let ?ps = "map (\<lambda>(c, e). point_of c e) (zip cs embs)"
  have "map point_id ?ps = map chunk_id (map fst (zip cs embs))"
    by (simp add: point_of_def split_def)
  also have "\<dots> = map chunk_id (take (min (length cs) (length embs)) cs)"
    by (simp only: map_fst_zip_take)
  also have "\<dots> = take (min (length cs) (length embs)) (map chunk_id cs)"
    by (simp only: take_map)
  finally have dp: "distinct (map point_id ?ps)" using d by (simp only: distinct_take)
  have "\<forall>p \<in> set ?ps. payload_doc_id p = did"
    using c by (auto simp: point_of_def dest: set_zip_leftD)
  with filter_upsert [of point_id ?ps vs "\<lambda>p. payload_doc_id p = did", OF dp] v
  show ?thesis by (simp add: vs_upsert_chunks_def)
qed






text \<open>The concrete runs used below.\<close>

lemma ingest_a:
  "ingest_file world0 settings0 ''/d/a.txt'' False None state0 = (Inr (Some doc_a), state_a)"
proof -
  have "fst (ingest_file world0 settings0 ''/d/a.txt'' False None state0) = Inr (Some doc_a)"
    by code_simp
  then show ?thesis by (simp add: state_a_def prod_eq_iff)
qed

lemma ingest_a_edited:
  "ingest_file world_edited settings0 ''/d/a.txt'' False None state_a =
     (Inr (Some doc_a_edited), state_a_edited)"
proof -
  have "fst (ingest_file world_edited settings0 ''/d/a.txt'' False None state_a) =
      Inr (Some doc_a_edited)"
    by code_simp
  then show ?thesis by (simp add: state_a_edited_def prod_eq_iff)
qed

lemma inj_uuid4_world_edited: "inj (uuid4 world_edited)"
proof (rule injI)
  fix x y assume "uuid4 world_edited x = uuid4 world_edited y"
  then have "length (replicate (Suc x) CHR ''u'') = length (replicate (Suc y) CHR ''u'')"
    by (simp add: world_edited_def world0_def)
  then show "x = y" by simp
qed

section \<open>Claims about the ingestion pipeline\<close>

text \<open>
  C8.  When the graph-extraction step raises, \<open>ingest_file\<close> still returns the
  document, and the document store and the vector store are what the persist and
  embed steps made them: the run with the failing graph client returns the same
  document as the run without a graph client, in the same state but for the record
  of what was sent to the graph backend.
\<close>

theorem ingest_file_graph_failure:
  assumes "ingest_file w cfg path force None st = (Inr (Some doc), st1)"
    and "is_initialized gc"
    and "add_document (cfg_graph cfg) gc (title doc) (source_path doc) (doc_text doc)
           (graph_trace st1) = (Inl e, trace)"
  shows "ingest_file w cfg path force (Some gc) st = (Inr (Some doc), st1\<lparr>graph_trace := trace\<rparr>)"
  using assms by (subst ingest_file_graph) (simp add: graph_extraction_def)

theorem ingest_file_graph_failure_witness:
  "ingest_file world0 settings0 ''/d/a.txt'' False None state0 = (Inr (Some doc_a), state_a)
   \<and> is_initialized graph_client0
   \<and> add_document (cfg_graph settings0) graph_client0 (title doc_a) (source_path doc_a)
        (doc_text doc_a) (graph_trace state_a) = (Inl AttributeError, [])
   \<and> ingest_file world0 settings0 ''/d/a.txt'' False (Some graph_client0) state0 =
        (Inr (Some doc_a), state_a\<lparr>graph_trace := []\<rparr>)"
proof -
  have i: "is_initialized graph_client0"
    by (simp add: is_initialized_def graph_client0_def)
  have g: "add_document (cfg_graph settings0) graph_client0 (title doc_a) (source_path doc_a)
        (doc_text doc_a) (graph_trace state_a) = (Inl AttributeError, [])"
    by code_simp
  from ingest_file_graph_failure [OF ingest_a i g] ingest_a i g show ?thesis by simp
qed

text \<open>
  C7.  Ingesting a file that has not changed since it was ingested is a no-op: after
  a call of \<open>ingest_file\<close> that returned a document, a second call on the same file
  without \<open>force\<close> returns None (the skip signal) and leaves the whole state as it
  was, so no chunk or vector is added and the stored \<open>doc_id\<close> stays.
\<close>

theorem ingest_file_idempotent:
  assumes h: "file_hash w path = Some h"
    and first: "ingest_file w cfg path force gc st = (Inr (Some doc), st1)"
  shows "ingest_file w cfg path False gc st1 = (Inr None, st1)"
proof -
  from first obtain st0 where
    f0: "ingest_file w cfg path force None st = (Inr (Some doc), st0)"
    and st1: "st1 = graph_extraction cfg gc doc st0"
    by (subst (asm) ingest_file_graph)
      (auto split: prod.splits sum.splits option.splits)
  from f0 obtain nz doc0 sta cs where
    nz: "get_normalizer w path = Some nz"
    and n: "normalize w nz path (uuid_count st) = Inr doc0"
    and r: "replace_existing path doc0 (st\<lparr>uuid_count := Suc (uuid_count st)\<rparr>) = (doc, sta)"
    and e: "embed_and_store w cs
       (sta\<lparr>docstore := ds_upsert_chunks (upsert_document (docstore sta) doc) cs,
            uuid_count := uuid_count sta + length cs\<rparr>) = Inr st0"
    by (rule ingest_file_SomeE)
  from normalize_fields [OF n] h have "source_path doc0 = path" "content_hash doc0 = h" by auto
  with replace_existing_fields [OF r] have d: "source_path doc = path" "content_hash doc = h"
    by auto
  from embed_and_store_docstore [OF e]
  have "docstore st0 = ds_upsert_chunks (upsert_document (docstore sta) doc) cs" by simp
  with st1 graph_extraction_stores [of cfg gc doc st0]
  have "documents (docstore st1) = documents (upsert_document (docstore sta) doc)"
    by (simp add: ds_upsert_chunks_def)
  then have "get_document_by_path (docstore st1) path = Some doc"
    using upsert_document_by_path [of "docstore sta" doc] d(1)
    by (simp add: get_document_by_path_def)
  with d(2) have "is_unchanged (docstore st1) path h"
    by (simp add: is_unchanged_def get_document_by_path_def)
  with nz h show ?thesis by (simp add: ingest_file_def check_unchanged_def)
qed

theorem ingest_file_idempotent_witness:
  "file_hash world0 ''/d/a.txt'' = Some ''sha:/d/a.txt''
   \<and> ingest_file world0 settings0 ''/d/a.txt'' False None state0 = (Inr (Some doc_a), state_a)
   \<and> ingest_file world0 settings0 ''/d/a.txt'' False None state_a = (Inr None, state_a)"
proof -
  have h: "file_hash world0 ''/d/a.txt'' = Some ''sha:/d/a.txt''"
    by (simp add: world0_def)
  from ingest_file_idempotent [OF h ingest_a] ingest_a h show ?thesis by simp
qed

text \<open>
  C3.  Ingesting a file at a path that the document store already knows reuses the
  stored \<open>doc_id\<close>, and afterwards the chunks of that \<open>doc_id\<close> in the document
  store are exactly the chunks of the new chunking, in order.  When a vector store
  is passed, it is still there afterwards and its vectors of that \<open>doc_id\<close> are
  exactly the points of the new chunks, paired in order with the embeddings that
  the embedding service returned for their texts (none when the new chunking is
  empty): the old vectors are gone and the new ones are in.  The identifiers drawn
  are distinct (\<open>uuid4\<close> is injective).
\<close>

theorem reingest_replaces_chunks:
  assumes ex: "get_document_by_path (docstore st) path = Some existing"
    and run: "ingest_file w cfg path force gc st = (Inr (Some doc), st1)"
    and inj: "inj (uuid4 w)"
  shows "doc_id doc = doc_id existing
    \<and> (\<exists>cs. chunk_document (\<lambda>i. uuid4 w (Suc (uuid_count st) + i)) (doc_id existing)
               (doc_text doc) (cfg_chunk_size cfg) (cfg_chunk_overlap cfg)
               (Some [(''source_path'', source_path doc),
                      (''doc_type'', doc_type_value (doc_type doc))]) = Inr cs
            \<and> get_chunks_for_doc (docstore st1) (doc_id existing) = cs
            \<and> (\<forall>vs0. vectorstore st = Some vs0 \<longrightarrow>
                  (\<exists>vs. vectorstore st1 = Some vs
                     \<and> (cs = [] \<longrightarrow>
                           filter (\<lambda>p. payload_doc_id p = doc_id existing) vs = [])
                     \<and> (cs \<noteq> [] \<longrightarrow>
                           (\<exists>embs. embed w (map chunk_text cs) = Inr embs
                              \<and> filter (\<lambda>p. payload_doc_id p = doc_id existing) vs =
                                  map (\<lambda>(c, e). point_of c e) (zip cs embs))))))"
proof -
  from run obtain st0 where
    f0: "ingest_file w cfg path force None st = (Inr (Some doc), st0)"
    and st1: "st1 = graph_extraction cfg gc doc st0"
    by (subst (asm) ingest_file_graph)
      (auto split: prod.splits sum.splits option.splits)
  from f0 obtain nz doc0 sta cs where
    r: "replace_existing path doc0 (st\<lparr>uuid_count := Suc (uuid_count st)\<rparr>) = (doc, sta)"
    and c: "chunk_document (\<lambda>i. uuid4 w (uuid_count sta + i)) (doc_id doc) (doc_text doc)
        (cfg_chunk_size cfg) (cfg_chunk_overlap cfg)
        (Some [(''source_path'', source_path doc), (''doc_type'', doc_type_value (doc_type doc))])
       = Inr cs"
    and e: "embed_and_store w cs
       (sta\<lparr>docstore := ds_upsert_chunks (upsert_document (docstore sta) doc) cs,
            uuid_count := uuid_count sta + length cs\<rparr>) = Inr st0"
    by (rule ingest_file_SomeE)
  have ex': "get_document_by_path (docstore (st\<lparr>uuid_count := Suc (uuid_count st)\<rparr>)) path
      = Some existing" using ex by simp
  note re = replace_existing_Some [OF ex' r]
  have cnt: "uuid_count sta = Suc (uuid_count st)"
    using replace_existing_fields(4) [OF r] by simp
  note rows = chunk_document_rows [OF c]
  have "inj_on (\<lambda>i. uuid4 w (uuid_count sta + i)) (set [0..<length cs])"
  proof (rule inj_onI)
    fix x y assume "uuid4 w (uuid_count sta + x) = uuid4 w (uuid_count sta + y)"
    with inj have "uuid_count sta + x = uuid_count sta + y" by (rule injD)
    then show "x = y" by simp
  qed
  then have dist: "distinct (map chunk_id cs)"
    unfolding rows(1) by (simp add: distinct_map)
  have did: "\<forall>c \<in> set cs. chunk_doc_id c = doc_id existing" using rows(2) re(1) by simp
  \<comment> \<open>the chunk rows\<close>
  have ds: "docstore st1 = ds_upsert_chunks (upsert_document (docstore sta) doc) cs"
    using embed_and_store_docstore [OF e] st1 graph_extraction_stores [of cfg gc doc st0]
    by simp
  have "filter (\<lambda>c. chunk_doc_id c = doc_id existing) (chunks (docstore st1)) = cs"
    unfolding ds using filter_upsert [of chunk_id cs "chunks (docstore sta)"
        "\<lambda>c. chunk_doc_id c = doc_id existing", OF dist] re(2) did
    by (simp add: ds_upsert_chunks_def upsert_document_def)
  moreover have "sort_key chunk_index cs = cs"
    using rows(3) sorted_upt_int [of "length cs"] by (simp add: sort_key_id_if_sorted)
  ultimately have g: "get_chunks_for_doc (docstore st1) (doc_id existing) = cs"
    by (simp add: get_chunks_for_doc_def)
  \<comment> \<open>the vectors\<close>
  have v: "\<forall>vs0. vectorstore st = Some vs0 \<longrightarrow>
      (\<exists>vs. vectorstore st1 = Some vs
         \<and> (cs = [] \<longrightarrow> filter (\<lambda>p. payload_doc_id p = doc_id existing) vs = [])
         \<and> (cs \<noteq> [] \<longrightarrow>
               (\<exists>embs. embed w (map chunk_text cs) = Inr embs
                  \<and> filter (\<lambda>p. payload_doc_id p = doc_id existing) vs =
                      map (\<lambda>(c, e). point_of c e) (zip cs embs))))"
  proof (intro allI impI)
    fix vs0 assume "vectorstore st = Some vs0"
    then have "vectorstore (st\<lparr>uuid_count := Suc (uuid_count st)\<rparr>) = Some vs0" by simp
    from replace_existing_vectors [OF ex' r this]
    have va: "vectorstore sta = Some (delete_by_doc_id vs0 (doc_id existing))" .
    let ?vd = "delete_by_doc_id vs0 (doc_id existing)"
    have none: "\<forall>p \<in> set ?vd. payload_doc_id p \<noteq> doc_id existing"
      by (simp add: delete_by_doc_id_def)
    from va have "vectorstore
        (sta\<lparr>docstore := ds_upsert_chunks (upsert_document (docstore sta) doc) cs,
             uuid_count := uuid_count sta + length cs\<rparr>) = Some ?vd" by simp
    from embed_and_store_vectors [OF e this] obtain vs where
      v0: "vectorstore st0 = Some vs"
      and empty: "cs = [] \<longrightarrow> vs = ?vd"
      and full: "cs \<noteq> [] \<longrightarrow> (\<exists>embs. embed w (map chunk_text cs) = Inr embs
                    \<and> vs = vs_upsert_chunks ?vd cs embs)"
      by blast
    have v1: "vectorstore st1 = Some vs"
      using v0 st1 graph_extraction_stores [of cfg gc doc st0] by simp
    have a: "cs = [] \<longrightarrow> filter (\<lambda>p. payload_doc_id p = doc_id existing) vs = []"
      using empty none by (simp add: filter_empty_conv)
    have b: "cs \<noteq> [] \<longrightarrow> (\<exists>embs. embed w (map chunk_text cs) = Inr embs
        \<and> filter (\<lambda>p. payload_doc_id p = doc_id existing) vs =
            map (\<lambda>(c, e). point_of c e) (zip cs embs))"
    proof
      assume "cs \<noteq> []"
      with full obtain embs where em: "embed w (map chunk_text cs) = Inr embs"
        and vs: "vs = vs_upsert_chunks ?vd cs embs" by blast
      from points_of_doc [OF dist did none, of embs] vs em
      show "\<exists>embs. embed w (map chunk_text cs) = Inr embs
        \<and> filter (\<lambda>p. payload_doc_id p = doc_id existing) vs =
            map (\<lambda>(c, e). point_of c e) (zip cs embs)" by blast
    qed
    from v1 a b show "\<exists>vs. vectorstore st1 = Some vs
         \<and> (cs = [] \<longrightarrow> filter (\<lambda>p. payload_doc_id p = doc_id existing) vs = [])
         \<and> (cs \<noteq> [] \<longrightarrow>
               (\<exists>embs. embed w (map chunk_text cs) = Inr embs
                  \<and> filter (\<lambda>p. payload_doc_id p = doc_id existing) vs =
                      map (\<lambda>(c, e). point_of c e) (zip cs embs)))" by blast
  qed
  from c cnt re(1) have "chunk_document (\<lambda>i. uuid4 w (Suc (uuid_count st) + i)) (doc_id existing)
               (doc_text doc) (cfg_chunk_size cfg) (cfg_chunk_overlap cfg)
               (Some [(''source_path'', source_path doc),
                      (''doc_type'', doc_type_value (doc_type doc))]) = Inr cs" by simp
  with re(1) g v show ?thesis by blast
qed

theorem reingest_replaces_chunks_witness:
  "get_document_by_path (docstore state_a) ''/d/a.txt'' = Some doc_a
   \<and> ingest_file world_edited settings0 ''/d/a.txt'' False None state_a =
        (Inr (Some doc_a_edited), state_a_edited)
   \<and> inj (uuid4 world_edited)
   \<and> length (get_chunks_for_doc (docstore state_a) (doc_id doc_a)) = 2
   \<and> (\<exists>vs0. vectorstore state_a = Some vs0
         \<and> length (filter (\<lambda>p. payload_doc_id p = doc_id doc_a) vs0) = 2)
   \<and> doc_id doc_a_edited = doc_id doc_a
   \<and> get_chunks_for_doc (docstore state_a_edited) (doc_id doc_a) = [chunk_xy]
   \<and> embed world_edited (map chunk_text [chunk_xy]) = Inr [[1]]
   \<and> (\<exists>vs. vectorstore state_a_edited = Some vs
         \<and> filter (\<lambda>p. payload_doc_id p = doc_id doc_a) vs = [point_of chunk_xy [1]])"
proof -
  have ex: "get_document_by_path (docstore state_a) ''/d/a.txt'' = Some doc_a"
    by code_simp
  have old: "length (get_chunks_for_doc (docstore state_a) (doc_id doc_a)) = 2"
    by code_simp
  have oldv: "vectorstore state_a = Some (the (vectorstore state_a))"
    "length (filter (\<lambda>p. payload_doc_id p = doc_id doc_a) (the (vectorstore state_a))) = 2"
    by code_simp+
  have new: "chunk_document (\<lambda>i. uuid4 world_edited (Suc (uuid_count state_a) + i))
      (doc_id doc_a) (doc_text doc_a_edited) (cfg_chunk_size settings0)
      (cfg_chunk_overlap settings0)
      (Some [(''source_path'', source_path doc_a_edited),
             (''doc_type'', doc_type_value (doc_type doc_a_edited))]) = Inr [chunk_xy]"
    by code_simp
  have em: "embed world_edited (map chunk_text [chunk_xy]) = Inr [[1]]"
    by code_simp
  from reingest_replaces_chunks [OF ex ingest_a_edited inj_uuid4_world_edited] new
  have "doc_id doc_a_edited = doc_id doc_a
    \<and> get_chunks_for_doc (docstore state_a_edited) (doc_id doc_a) = [chunk_xy]
    \<and> (\<forall>vs0. vectorstore state_a = Some vs0 \<longrightarrow>
          (\<exists>vs. vectorstore state_a_edited = Some vs
             \<and> (\<exists>embs. embed world_edited (map chunk_text [chunk_xy]) = Inr embs
                   \<and> filter (\<lambda>p. payload_doc_id p = doc_id doc_a) vs =
                       map (\<lambda>(c, e). point_of c e) (zip [chunk_xy] embs))))"
    by auto
  with oldv(1) em have "doc_id doc_a_edited = doc_id doc_a
    \<and> get_chunks_for_doc (docstore state_a_edited) (doc_id doc_a) = [chunk_xy]
    \<and> (\<exists>vs. vectorstore state_a_edited = Some vs
          \<and> filter (\<lambda>p. payload_doc_id p = doc_id doc_a) vs = [point_of chunk_xy [1]])"
    by auto
  with ex ingest_a_edited inj_uuid4_world_edited old oldv em show ?thesis by blast
qed




section \<open>Claims about the retriever\<close>

text \<open>
  C9.  When the graph client is not initialized, \<open>retrieve_fusion\<close> returns the
  citations of the vector search with an empty list of graph facts; it raises
  only what the vector search itself raises.
\<close>

theorem retrieve_fusion_graph_uninitialized:
  assumes "\<not> is_initialized gc"
  shows "(retrieve_chunks w cfg query vs ds top_k = Inr citations \<longrightarrow>
            retrieve_fusion w cfg query vs ds gc top_k graph_results = Inr (citations, []))
         \<and> (retrieve_chunks w cfg query vs ds top_k = Inl e \<longrightarrow>
              retrieve_fusion w cfg query vs ds gc top_k graph_results = Inl e)"
  using assms by (simp add: retrieve_fusion_def)

theorem retrieve_fusion_graph_uninitialized_witness:
  "\<not> is_initialized \<lparr>graphiti_of = None\<rparr>
   \<and> retrieve_chunks world0 settings0 ''q'' [orphan_point] \<lparr>documents = [], chunks = []\<rparr> None =
       Inr [\<lparr>cit_doc_id = ''gone'', cit_chunk_id = ''c1'', cit_source_path = [], cit_title = [],
              cit_chunk_index = 0, cit_snippet = ''ab'', cit_score = 1\<rparr>]
   \<and> retrieve_fusion world0 settings0 ''q'' [orphan_point] \<lparr>documents = [], chunks = []\<rparr>
         \<lparr>graphiti_of = None\<rparr> None None =
       Inr ([\<lparr>cit_doc_id = ''gone'', cit_chunk_id = ''c1'', cit_source_path = [], cit_title = [],
               cit_chunk_index = 0, cit_snippet = ''ab'', cit_score = 1\<rparr>], [])"
proof -
  have h: "\<not> is_initialized \<lparr>graphiti_of = None\<rparr>"
    by (simp add: is_initialized_def)
  have ev: "retrieve_chunks world0 settings0 ''q'' [orphan_point] \<lparr>documents = [], chunks = []\<rparr> None =
       Inr [\<lparr>cit_doc_id = ''gone'', cit_chunk_id = ''c1'', cit_source_path = [], cit_title = [],
              cit_chunk_index = 0, cit_snippet = ''ab'', cit_score = 1\<rparr>]"
    by (simp add: retrieve_chunks_def vs_search_def build_citation_def get_document_def
        slice_to_def world0_def settings0_def orphan_point_def)
  from retrieve_fusion_graph_uninitialized [OF h, of world0 settings0 "''q''" "[orphan_point]"
      "\<lparr>documents = [], chunks = []\<rparr>" None _ None] ev h
  show ?thesis by simp
qed

text \<open>
  C10.  A hit of the vector search whose \<open>doc_id\<close> is not in the document store
  does not make \<open>retrieve_chunks\<close> fail: when the embedding and the search return,
  \<open>retrieve_chunks\<close> returns one citation per hit, in the order of the hits, and
  the citation of such a hit carries the hit's identifiers with an empty
  \<open>source_path\<close> and an empty \<open>title\<close>.
\<close>

theorem retrieve_chunks_missing_document:
  assumes "embed w [query] = Inr (query_emb # others)"
    and "vs_search w vs query_emb (case top_k of None \<Rightarrow> cfg_top_k cfg | Some k \<Rightarrow> k) = Inr results"
  shows "\<exists>citations. retrieve_chunks w cfg query vs ds top_k = Inr citations
           \<and> length citations = length results
           \<and> (\<forall>i < length results.
                 get_document ds (hit_doc_id (results ! i)) = None \<longrightarrow>
                   cit_doc_id (citations ! i) = hit_doc_id (results ! i)
                   \<and> cit_chunk_id (citations ! i) = hit_chunk_id (results ! i)
                   \<and> cit_source_path (citations ! i) = []
                   \<and> cit_title (citations ! i) = [])"
  using assms by (simp add: retrieve_chunks_def build_citation_def)

theorem retrieve_chunks_missing_document_witness:
  "embed world0 [''q''] = Inr ([1] # [])
   \<and> vs_search world0 [orphan_point] [1] (cfg_top_k settings0) =
       Inr [\<lparr>hit_chunk_id = ''c1'', hit_doc_id = ''gone'', hit_text = ''ab'', hit_index = 0,
              hit_score = 1, hit_metadata = []\<rparr>]
   \<and> get_document \<lparr>documents = [], chunks = []\<rparr> ''gone'' = None
   \<and> (\<exists>citations.
         retrieve_chunks world0 settings0 ''q'' [orphan_point] \<lparr>documents = [], chunks = []\<rparr> None =
           Inr citations
         \<and> length citations = 1
         \<and> cit_doc_id (citations ! 0) = ''gone'' \<and> cit_chunk_id (citations ! 0) = ''c1''
         \<and> cit_source_path (citations ! 0) = [] \<and> cit_title (citations ! 0) = [])"
proof -
  have e: "embed world0 [''q''] = Inr ([1] # [])"
    by (simp add: world0_def)
  have s: "vs_search world0 [orphan_point] [1]
             (case None of None \<Rightarrow> cfg_top_k settings0 | Some k \<Rightarrow> k) =
       Inr [\<lparr>hit_chunk_id = ''c1'', hit_doc_id = ''gone'', hit_text = ''ab'', hit_index = 0,
              hit_score = 1, hit_metadata = []\<rparr>]"
    by (simp add: vs_search_def world0_def settings0_def orphan_point_def)
  have g: "get_document \<lparr>documents = [], chunks = []\<rparr> ''gone'' = None"
    by (simp add: get_document_def)
  from retrieve_chunks_missing_document [OF e s, where ds = "\<lparr>documents = [], chunks = []\<rparr>"] g
  have "\<exists>citations.
         retrieve_chunks world0 settings0 ''q'' [orphan_point] \<lparr>documents = [], chunks = []\<rparr> None =
           Inr citations
         \<and> length citations = 1
         \<and> cit_doc_id (citations ! 0) = ''gone'' \<and> cit_chunk_id (citations ! 0) = ''c1''
         \<and> cit_source_path (citations ! 0) = [] \<and> cit_title (citations ! 0) = []"
    by simp
  with e s g show ?thesis by simp
qed

end
